theory Spec2Isabelle
  imports
    Main
    "HOL-Library.AList"
    "HOL-Library.Multiset"
    "HOL-Library.Product_Lexorder"
    "HOL-Library.List_Lexorder"
    "HOL-Library.Char_ord"
begin

section \<open>Python and numpy conventions\<close>

text \<open>
  The toolkit is Python over numpy arrays. A one-dimensional integer array is a list of
  \<^typ>\<open>int\<close> holding 64-bit signed values; arithmetic on such arrays and on their
  elements is numpy's, which wraps around modulo \<open>2^64\<close> without raising. Array indices
  and lengths are \<^typ>\<open>nat\<close>, and every exception the code can raise is a value of
  \<open>error\<close>, carried on the left of a sum.
\<close>

definition two63 :: int where
  "two63 = 9223372036854775808"

text \<open>The 64-bit signed values, and the value an exact result has once stored in 64 bits.\<close>

definition is_int64 :: "int \<Rightarrow> bool" where
  "is_int64 x = (- two63 \<le> x \<and> x < two63)"

definition int64 :: "int \<Rightarrow> int" where
  "int64 x = (x + two63) mod (2 * two63) - two63"

definition int64_array :: "int list \<Rightarrow> bool" where
  "int64_array X = list_all is_int64 X"

datatype error = AssertionError | IndexError | KeyError | TypeError | ValueError

text \<open>Sequencing of computations that may raise: the first exception wins.\<close>

definition sum_bind :: "'e + 'a \<Rightarrow> ('a \<Rightarrow> 'e + 'b) \<Rightarrow> 'e + 'b" where
  "sum_bind m f = (case m of Inl e \<Rightarrow> Inl e | Inr v \<Rightarrow> f v)"

fun sequence_sum :: "('e + 'a) list \<Rightarrow> 'e + 'a list" where
  "sequence_sum [] = Inr []"
| "sequence_sum (x # xs) =
     sum_bind x (\<lambda>v. sum_bind (sequence_sum xs) (\<lambda>vs. Inr (v # vs)))"

text \<open>\<open>xs[i]\<close> for a non-negative index: out of range raises IndexError.\<close>

definition get_item :: "'a list \<Rightarrow> nat \<Rightarrow> error + 'a" where
  "get_item xs i = (if i < length xs then Inr (xs ! i) else Inl IndexError)"

text \<open>\<open>xs[mask]\<close> for a boolean array \<open>mask\<close> of the length of \<open>xs\<close>.\<close>

definition mask_select :: "'a list \<Rightarrow> bool list \<Rightarrow> 'a list" where
  "mask_select xs bs = map fst (filter snd (zip xs bs))"

text \<open>\<open>xs[1:] - xs[:-1]\<close> and the like: element-wise operations on two slices of equal length.\<close>

definition array_sub :: "int list \<Rightarrow> int list \<Rightarrow> int list" where
  "array_sub xs ys = map2 (\<lambda>x y. int64 (x - y)) xs ys"

text \<open>\<open>np.sum\<close> of an integer array.\<close>

definition array_sum :: "int list \<Rightarrow> int" where
  "array_sum xs = int64 (sum_list xs)"

section \<open>Parsing SAM lines into read tips and tails\<close>

text \<open>\<open>str.split("\t")\<close>: one more field than there are separators.\<close>

fun split_on :: "char \<Rightarrow> string \<Rightarrow> string list" where
  "split_on c [] = [[]]"
| "split_on c (x # xs) =
     (if x = c then [] # split_on c xs
      else (case split_on c xs of
              w # ws \<Rightarrow> (x # w) # ws
            | [] \<Rightarrow> [[x]]))"

definition tab :: char where
  "tab = CHR 0x09"

definition digit_val :: "char \<Rightarrow> nat option" where
  "digit_val c =
     (let n = of_char c :: nat in
      if 48 \<le> n \<and> n \<le> 57 then Some (n - 48) else None)"

fun digits_val :: "nat \<Rightarrow> string \<Rightarrow> nat option" where
  "digits_val acc [] = Some acc"
| "digits_val acc (c # cs) =
     (case digit_val c of
        None \<Rightarrow> None
      | Some d \<Rightarrow> digits_val (10 * acc + d) cs)"

text \<open>
  \<open>int(s)\<close> on the decimal spellings a SAM column holds: digits with an optional sign.
  Anything else raises ValueError.
\<close>

definition py_int :: "string \<Rightarrow> error + int" where
  "py_int s =
     (case s of
        [] \<Rightarrow> Inl ValueError
      | c # cs \<Rightarrow>
          (if c = CHR ''-'' \<and> cs \<noteq> [] then
             (case digits_val 0 cs of None \<Rightarrow> Inl ValueError | Some n \<Rightarrow> Inr (- int n))
           else if c = CHR ''+'' \<and> cs \<noteq> [] then
             (case digits_val 0 cs of None \<Rightarrow> Inl ValueError | Some n \<Rightarrow> Inr (int n))
           else
             (case digits_val 0 s of None \<Rightarrow> Inl ValueError | Some n \<Rightarrow> Inr (int n))))"

text \<open>A read of \<open>reads.py\<close>: \<open>ReadGroup.DTYPE_READ\<close>.\<close>

record read =
  tip :: int
  tail :: int
  strand :: string
  name :: string

text \<open>
  \<open>ReadGroup._parse_sam_strings\<close> of \<open>reads.py\<close> with its inner \<open>_parse_sam_string\<close>.
  \<open>bam_io.flag_orientation\<close> is not part of the sources at hand and is a parameter.
  A strand that is neither \<open>+\<close> nor \<open>-\<close> falls off the end of the function: \<open>None\<close>.
\<close>

definition ReadGroup_parse_sam_string ::
  "(int \<Rightarrow> string option) \<Rightarrow> string \<Rightarrow> string option \<Rightarrow> error + read option" where
  "ReadGroup_parse_sam_string flag_orientation string strand0 =
     (let attr = split_on tab string in
      sum_bind (get_item attr 0) (\<lambda>name0.
      sum_bind (get_item attr 3) (\<lambda>pos.
      sum_bind (py_int pos) (\<lambda>start.
      sum_bind (get_item attr 9) (\<lambda>seq.
      let length0 = int (length seq);
          end = start + length0 - 1
      in sum_bind
           (case strand0 of
              None \<Rightarrow> sum_bind (get_item attr 1) (\<lambda>f.
                        sum_bind (py_int f) (\<lambda>fl. Inr (flag_orientation fl)))
            | Some s \<Rightarrow> Inr (Some s))
           (\<lambda>strand1.
              if strand1 = Some ''+'' then
                Inr (Some \<lparr>tip = end, tail = start, strand = ''+'', name = name0\<rparr>)
              else if strand1 = Some ''-'' then
                Inr (Some \<lparr>tip = start, tail = end, strand = ''-'', name = name0\<rparr>)
              else Inr None))))))"

definition ReadGroup_parse_sam_strings ::
  "(int \<Rightarrow> string option) \<Rightarrow> string list \<Rightarrow> string option \<Rightarrow> error + read option list" where
  "ReadGroup_parse_sam_strings flag_orientation strings strand0 =
     (if strand0 \<in> {Some ''+'', Some ''-'', None}
      then sequence_sum (map (\<lambda>s. ReadGroup_parse_sam_string flag_orientation s strand0) strings)
      else Inl AssertionError)"

text \<open>
  \<open>parse_sam_strings\<close> of \<open>libtec.py\<close> with its inner \<open>parse_sam_string\<close>; a read is the
  tuple (tip, tail, length, reverse) of the dtype \<open>sam_read\<close>. The final sort is by tip and
  tail, ties broken by the remaining fields in order. A \<open>None\<close> among the parsed reads
  cannot be stored in the array: TypeError.
\<close>

type_synonym sam_read = "int \<times> int \<times> int \<times> bool"

definition parse_sam_string :: "string \<Rightarrow> string \<Rightarrow> error + sam_read option" where
  "parse_sam_string sam_string strand0 =
     (let attr = split_on tab sam_string in
      sum_bind (get_item attr 3) (\<lambda>pos.
      sum_bind (py_int pos) (\<lambda>start.
      sum_bind (get_item attr 9) (\<lambda>seq.
      let length0 = int (length seq);
          end = start + length0
      in if strand0 = ''+'' then Inr (Some (end, start, length0, True))
         else if strand0 = ''-'' then Inr (Some (start, end, length0, False))
         else Inr None))))"

definition parse_sam_strings :: "string list \<Rightarrow> string \<Rightarrow> error + sam_read list" where
  "parse_sam_strings sam_strings strand0 =
     sum_bind (sequence_sum (map (\<lambda>s. parse_sam_string s strand0) sam_strings)) (\<lambda>rs.
       if list_all (\<lambda>r. r \<noteq> None) rs then Inr (sort (map the rs))
       else Inl TypeError)"

text \<open>Two SAM lines: the eleven mandatory columns, joined by tabs.\<close>

definition join_tab :: "string list \<Rightarrow> string" where
  "join_tab cols = concat (case cols of [] \<Rightarrow> [] | f # fs \<Rightarrow> f # map (\<lambda>g. tab # g) fs)"

definition sam_forward :: string where
  "sam_forward = join_tab [''Gypsy27_a'', ''0'', ''chr1'', ''2'', ''60'', ''7M'', ''*'', ''0'', ''0'',
                           ''AACCCTA'', ''FFFIIII'']"

definition sam_reverse :: string where
  "sam_reverse = join_tab [''Gypsy27_c'', ''16'', ''chr1'', ''7'', ''60'', ''3M'', ''*'', ''0'', ''0'',
                           ''AAC'', ''FFF'']"

section \<open>Loci: melting intervals and building comparative bins\<close>

text \<open>
  An interval is a (start, stop) pair of the dtype \<open>_Loci._DTYPE_LOCI\<close>; a group key is a
  tuple of strings, (reference, strand, category, source) for reads and fingerprints and
  (reference, strand, category) for bins. A loci object wraps a Python dictionary, modelled
  as an association list in insertion order.
\<close>

type_synonym interval = "int \<times> int"
type_synonym group3 = "string \<times> string \<times> string"
type_synonym group4 = "string \<times> string \<times> string \<times> string"
type_synonym ('k, 'v) dict = "('k \<times> 'v) list"

definition dict_get :: "('k, 'v) dict \<Rightarrow> 'k \<Rightarrow> error + 'v" where
  "dict_get d k = (case map_of d k of None \<Rightarrow> Inl KeyError | Some v \<Rightarrow> Inr v)"

definition dict_set :: "('k, 'v) dict \<Rightarrow> 'k \<Rightarrow> 'v \<Rightarrow> ('k, 'v) dict" where
  "dict_set d k v = AList.update k v d"

fun fold_sum :: "('s \<Rightarrow> 'a \<Rightarrow> 'e + 's) \<Rightarrow> 's \<Rightarrow> 'a list \<Rightarrow> 'e + 's" where
  "fold_sum f s [] = Inr s"
| "fold_sum f s (x # xs) = sum_bind (f s x) (\<lambda>s'. fold_sum f s' xs)"

text \<open>
  \<open>_loci_melter\<close>: the loop over \<open>range(1, len(array_starts))\<close> reads the two sorted copies
  at the same index, so it runs over the paired tails; the state is (start, stop).
\<close>

fun loci_melter_loop :: "int \<Rightarrow> int \<Rightarrow> interval list \<Rightarrow> interval list" where
  "loci_melter_loop start stop [] = [(start, stop)]"
| "loci_melter_loop start stop ((starts_i, stops_i) # rest) =
     (if starts_i \<le> stop then
        (if stops_i > stop then loci_melter_loop start stops_i rest
         else loci_melter_loop start stop rest)
      else (start, stop) # loci_melter_loop starts_i stops_i rest)"

definition loci_melter :: "interval list \<Rightarrow> error + interval list" where
  "loci_melter array =
     (let array_starts = sort (map fst array);
          array_stops = sort (map snd array)
      in case zip array_starts array_stops of
           [] \<Rightarrow> Inl IndexError
         | (start, stop) # rest \<Rightarrow> Inr (loci_melter_loop start stop rest))"

text \<open>\<open>group[0:3]\<close>.\<close>

definition group3_of :: "group4 \<Rightarrow> group3" where
  "group3_of key = (case key of (reference, strand0, category, source) \<Rightarrow>
                        (reference, strand0, category))"

text \<open>
  \<open>ComparativeBins.from_union\<close> on its argument list: the projected keys (a Python set,
  here the distinct keys in order of appearance), one empty array per key, every loci
  array appended under its projected key, and each collected array melted.
\<close>

definition from_union_append ::
  "(group3, interval list) dict \<Rightarrow> group4 \<times> interval list \<Rightarrow> error + (group3, interval list) dict" where
  "from_union_append dictionary item =
     (case item of (key, loci) \<Rightarrow>
        sum_bind (dict_get dictionary (group3_of key)) (\<lambda>old.
          Inr (dict_set dictionary (group3_of key) (old @ loci))))"

definition from_union_melt ::
  "group3 \<times> interval list \<Rightarrow> error + group3 \<times> interval list" where
  "from_union_melt item =
     (case item of (key, loci) \<Rightarrow> sum_bind (loci_melter loci) (\<lambda>melted. Inr (key, melted)))"

definition from_union ::
  "(group4, interval list) dict list \<Rightarrow> error + (group3, interval list) dict" where
  "from_union args =
     (let groups = remdups (map (\<lambda>item. group3_of (fst item)) (concat args));
          dictionary = map (\<lambda>key. (key, [])) groups
      in sum_bind (fold_sum (fold_sum from_union_append) dictionary args) (\<lambda>dictionary.
           sequence_sum (map from_union_melt dictionary)))"

text \<open>Two Python dictionaries are equal when they hold the same value under every key.\<close>

definition dict_result :: "error + ('k, 'v) dict \<Rightarrow> error + ('k \<rightharpoonup> 'v)" where
  "dict_result r = map_sum id map_of r"

subsection \<open>Notions used to state and prove the properties of the union\<close>

text \<open>
  What \<open>from_union\<close> has collected under a projected key once every argument is
  appended, the projected keys, and the melted entry of one key.
\<close>

definition collected :: "(group4 \<times> interval list) list \<Rightarrow> group3 \<Rightarrow> interval list" where
  "collected items g = concat (map snd (filter (\<lambda>item. group3_of (fst item) = g) items))"

definition union_groups :: "(group4, interval list) dict list \<Rightarrow> group3 list" where
  "union_groups args = remdups (map (\<lambda>item. group3_of (fst item)) (concat args))"

definition melted :: "(group4 \<times> interval list) list \<Rightarrow> group3 \<Rightarrow> error + group3 \<times> interval list" where
  "melted items g = from_union_melt (g, collected items g)"

section \<open>Univariate density clustering\<close>

text \<open>
  \<open>cluster.py\<close>. A slice is a pair (lower, upper) of the dtype \<open>_DTYPE_SLICE\<close>, read as the
  half-open index range from lower up to upper. The parameter \<open>min_points\<close> is a natural
  number; the classes are documented for \<open>min_points\<close> of at least 2, where
  \<open>offset = min_points - 1\<close> is positive and \<open>array[:-offset]\<close> drops the last \<open>offset\<close>
  entries. The thresholds (\<open>epsilon\<close>, \<open>max_eps\<close>, \<open>min_eps\<close>) are integers of
  the 64-bit range; comparing array entries with a threshold is exact, subtracting is
  64-bit arithmetic.
\<close>

type_synonym slice = "nat \<times> nat"

text \<open>\<open>row[a:b] = values\<close> for as many values as the slice is long.\<close>

definition assign_slice :: "'a list \<Rightarrow> nat \<Rightarrow> nat \<Rightarrow> 'a list \<Rightarrow> 'a list" where
  "assign_slice row a b vs = take a row @ vs @ drop b row"

text \<open>\<open>np.min(eps_2d, axis=0)\<close> on a matrix given by its rows, \<open>width\<close> columns wide.\<close>

definition column_min :: "int list list \<Rightarrow> nat \<Rightarrow> int list" where
  "column_min rows width = map (\<lambda>c. Min (set (map (\<lambda>row. row ! c) rows))) [0..<width]"

text \<open>
  \<open>core_distances\<close>. With more points asked for than the array holds, the two slices no
  longer have one shape or \<open>eps_values\<close> is empty, and numpy raises ValueError either at the
  subtraction or at \<open>np.max\<close>.
\<close>

definition core_distances :: "int list \<Rightarrow> nat \<Rightarrow> error + int list" where
  "core_distances array min_points =
     (if \<not> min_points > 1 then Inl AssertionError
      else
        let offset = min_points - 1;
            length0 = length array;
            lower = take (length0 - offset) array;
            upper = drop offset array;
            eps_values = array_sub upper lower
        in if eps_values = [] then Inl ValueError
           else
             let fill = Max (set eps_values);
                 eps_2d = map (\<lambda>i. assign_slice (replicate length0 fill) i
                                      (length0 - (offset - i)) eps_values)
                              [0..<min_points]
             in Inr (column_min eps_2d length0))"

text \<open>\<open>UDBSCANx._sorted_ascending\<close>: no negative step between neighbours.\<close>

definition sorted_ascending :: "int list \<Rightarrow> bool" where
  "sorted_ascending array =
     (length (filter (\<lambda>d. d < 0) (array_sub (tl array) (butlast array))) = 0)"

text \<open>
  \<open>UDBSCANx._melt_slices\<close>. \<open>slices['lower']\<close> and \<open>slices['upper']\<close> are views, so the two
  in-place sorts reorder the fields of \<open>slices\<close> itself: what the inner generator reads back
  as \<open>slices['lower'][i]\<close> is the sorted column. The generator \<open>_melter\<close> is a loop over the
  indices from 1 with the state (l, u) and the slices yielded so far; reading index 0 of an
  empty array raises IndexError.
\<close>

definition melter_step ::
  "slice list \<Rightarrow> nat list \<Rightarrow> bool list \<Rightarrow> nat \<times> nat \<times> slice list \<Rightarrow> nat \<Rightarrow> nat \<times> nat \<times> slice list" where
  "melter_step slices uppers splits state i =
     (case state of (l, u, yielded) \<Rightarrow>
        if splits ! i then (fst (slices ! i), snd (slices ! i), yielded @ [(l, u)])
        else (l, uppers ! i, yielded))"

definition melter :: "slice list \<Rightarrow> nat list \<Rightarrow> nat list \<Rightarrow> bool list \<Rightarrow> error + slice list" where
  "melter slices lowers uppers splits =
     (if lowers = [] \<or> uppers = [] then Inl IndexError
      else
        (case foldl (melter_step slices uppers splits) (lowers ! 0, uppers ! 0, [])
                [1..<length lowers]
         of (l, u, yielded) \<Rightarrow> Inr (yielded @ [(l, u)])))"

definition melt_slices :: "slice list \<Rightarrow> error + slice list" where
  "melt_slices slices0 =
     (let lowers = sort (map fst slices0);
          uppers = sort (map snd slices0);
          slices = zip lowers uppers;
          splits = False # map2 (\<lambda>u l. u \<le> l) (butlast uppers) (tl lowers)
      in melter slices lowers uppers splits)"

text \<open>
  \<open>UDBSCANx._subcluster\<close>. Below two points per subcluster numpy fails on the shapes
  (\<open>array[:-0]\<close> is empty); the model raises ValueError there unless the array is empty.
\<close>

definition subcluster :: "int list \<Rightarrow> nat \<Rightarrow> int \<Rightarrow> error + slice list" where
  "subcluster array min_points epsilon =
     (if \<not> sorted_ascending array then Inl AssertionError
      else if min_points < 2 then (if array = [] then Inr [] else Inl ValueError)
      else
        let offset = min_points - 1;
            upper = drop offset array;
            lower = take (length array - offset) array;
            selected = map (\<lambda>d. d \<le> epsilon) (array_sub upper lower);
            lower_index = mask_select [0..<length lower] selected;
            upper_index = map (\<lambda>i. i + 1) (mask_select [offset..<length array] selected)
        in Inr (zip lower_index upper_index))"

text \<open>\<open>UDBSCANx._cluster\<close>.\<close>

definition cluster :: "int list \<Rightarrow> nat \<Rightarrow> int \<Rightarrow> error + slice list" where
  "cluster array min_points epsilon =
     sum_bind (subcluster array min_points epsilon) (\<lambda>slices.
       if length slices > 1 then melt_slices slices else Inr slices)"

text \<open>
  \<open>UDBSCANxH._fork_epsilon\<close>. \<open>None\<close> is the answer "no fork". An array longer than
  \<open>min_points\<close> with \<open>min_points\<close> below 2 fails in numpy (shapes that do not broadcast, or
  a negative dimension): ValueError.
\<close>

definition fork_epsilon :: "int list \<Rightarrow> nat \<Rightarrow> error + int option" where
  "fork_epsilon array min_points =
     (if length array \<le> min_points then Inr None
      else if min_points < 2 then Inl ValueError
      else
        let offset = min_points - 1;
            eps_values = array_sub (drop offset array) (take (length array - offset) array);
            width = length eps_values + offset - 1;
            fill = Max (set eps_values);
            eps_2d = map (\<lambda>i. assign_slice (replicate width fill) i
                                 (length eps_values + i) eps_values)
                         [0..<offset];
            splits = column_min eps_2d width;
            gradients = array_sub (tl splits) (butlast splits);
            splits1 = mask_select splits (True # map (\<lambda>g. g \<noteq> 0) gradients);
            is_peak = map2 (\<lambda>a b. a \<and> b)
                        (False # map2 (\<lambda>a b. a > b) (tl splits1) (butlast splits1))
                        (map2 (\<lambda>a b. a > b) (butlast splits1) (tl splits1) @ [False]);
            splits2 = mask_select splits1 is_peak
        in if length splits2 = 0 then Inr None
           else Inr (Some (Max (set splits2))))"

text \<open>
  The state the two classes share, and \<open>UDBSCANx\<close> with its \<open>fit\<close>, which stores a copy
  of the array and the clusters found.
\<close>

record clusterer =
  min_points :: nat
  slices :: "slice list"
  input_array :: "int list"

record udbscanx = clusterer +
  epsilon :: int

definition UDBSCANx_init :: "nat \<Rightarrow> int \<Rightarrow> udbscanx" where
  "UDBSCANx_init k eps = \<lparr>min_points = k, slices = [], input_array = [], epsilon = eps\<rparr>"

definition UDBSCANx_fit :: "udbscanx \<Rightarrow> int list \<Rightarrow> error + udbscanx" where
  "UDBSCANx_fit self array =
     (if \<not> sorted_ascending array then Inl AssertionError
      else sum_bind (cluster array (min_points self) (epsilon self)) (\<lambda>found.
             Inr (self\<lparr>input_array := array, slices := found\<rparr>)))"

text \<open>\<open>cluster_extremities\<close>: the first and the last value of every cluster.\<close>

definition cluster_extremities :: "'a clusterer_scheme \<Rightarrow> (int \<times> int) list" where
  "cluster_extremities self =
     map (\<lambda>(lower, upper). (input_array self ! lower, input_array self ! (upper - 1)))
         (slices self)"

subsection \<open>The hierarchical variant\<close>

record udbscanxh = clusterer +
  max_eps :: "int option"
  min_eps :: "int option"
  method_name :: string

definition UDBSCANxH_init ::
  "nat \<Rightarrow> int option \<Rightarrow> int option \<Rightarrow> string \<Rightarrow> error + udbscanxh" where
  "UDBSCANxH_init k emax emin m =
     (if m \<in> {''aggressive'', ''conservative''}
      then Inr \<lparr>min_points = k, slices = [], input_array = [],
                max_eps = emax, min_eps = emin, method_name = m\<rparr>
      else Inl AssertionError)"

text \<open>
  A point of the structured array of \<open>_run\<close> (value, index, core distance), and the nested
  list that \<open>_traverse_cluster_tree\<close> returns: a pair of bounds or a list of results.
\<close>

record point =
  p_value :: int
  p_index :: nat
  core_dist :: int

datatype tree = Bounds slice | Children "tree list"

fun flatten_list :: "tree \<Rightarrow> slice list" where
  "flatten_list (Bounds s) = [s]"
| "flatten_list (Children ts) = concat (map flatten_list ts)"

text \<open>\<open>local_points['index'][0], local_points['index'][-1] + 1\<close>.\<close>

definition index_bounds :: "point list \<Rightarrow> error + tree" where
  "index_bounds local_points =
     (if local_points = [] then Inl IndexError
      else Inr (Bounds (p_index (hd local_points), p_index (last local_points) + 1)))"

text \<open>The support of the parent cluster, by method; \<open>None - array\<close> is a TypeError.\<close>

definition parent_support :: "udbscanxh \<Rightarrow> point list \<Rightarrow> int \<Rightarrow> int \<Rightarrow> error + int" where
  "parent_support self local_points local_max_eps local_min_eps =
     (if method_name self = ''aggressive'' then
        Inr (array_sum (map (\<lambda>p. int64 (local_max_eps - max local_min_eps (core_dist p)))
                            local_points))
      else if method_name self = ''conservative'' then
        (case max_eps self of
           None \<Rightarrow> Inl TypeError
         | Some e \<Rightarrow>
             Inr (array_sum (map (\<lambda>p. int64 (e - max local_min_eps (core_dist p)))
                                 local_points)))
      else Inl ValueError)"

text \<open>
  The results of the recursive calls on the children, in order: the first exception is
  the exception of the whole list, and a call that does not return stops everything.
\<close>

fun collect_children :: "(error + tree) option list \<Rightarrow> (error + tree list) option" where
  "collect_children [] = Some (Inr [])"
| "collect_children (r # rs) =
     (case r of
        None \<Rightarrow> None
      | Some (Inl e) \<Rightarrow> Some (Inl e)
      | Some (Inr t) \<Rightarrow>
          (case collect_children rs of
             None \<Rightarrow> None
           | Some (Inl e) \<Rightarrow> Some (Inl e)
           | Some (Inr ts) \<Rightarrow> Some (Inr (t # ts))))"

text \<open>
  \<open>UDBSCANxH._traverse_cluster_tree\<close>. The recursion of the source carries no counter;
  the first argument bounds its depth, and \<open>None\<close> says that the bound was reached before
  the traversal returned.
\<close>

fun traverse_cluster_tree ::
  "nat \<Rightarrow> udbscanxh \<Rightarrow> point list \<Rightarrow> int \<Rightarrow> (error + tree) option" where
  "traverse_cluster_tree 0 self local_points local_max_eps = None"
| "traverse_cluster_tree (Suc depth) self local_points local_max_eps =
     (case fork_epsilon (map p_value local_points) (min_points self) of
        Inl e \<Rightarrow> Some (Inl e)
      | Inr None \<Rightarrow> Some (index_bounds local_points)
      | Inr (Some local_min_eps) \<Rightarrow>
          (case parent_support self local_points local_max_eps local_min_eps of
             Inl e \<Rightarrow> Some (Inl e)
           | Inr support \<Rightarrow>
               let support_children =
                     array_sum (map (\<lambda>p. max 0 (int64 (local_min_eps - core_dist p)))
                                    local_points)
               in if support \<ge> support_children then Some (index_bounds local_points)
                  else
                    (case cluster (map p_value local_points) (min_points self)
                            (int64 (local_min_eps - 1)) of
                       Inl e \<Rightarrow> Some (Inl e)
                     | Inr child_cluster_bounds \<Rightarrow>
                         let child_points =
                               map (\<lambda>(left, right). take (right - left) (drop left local_points))
                                   child_cluster_bounds
                         in map_option (map_sum id Children)
                              (collect_children
                                 (map (\<lambda>points. traverse_cluster_tree depth self points
                                                   local_min_eps)
                                      child_points)))))"

text \<open>
  \<open>UDBSCANxH._run\<close>. A \<open>max_eps\<close> that is \<open>None\<close> or 0 is replaced by the fork epsilon of
  the whole array minus one, and stays replaced in the object; \<open>None - 1\<close> is a TypeError.
  The result is the updated object with the slices found.
\<close>

definition run :: "nat \<Rightarrow> udbscanxh \<Rightarrow> int list \<Rightarrow> (error + udbscanxh \<times> slice list) option" where
  "run depth self array =
     (if \<not> sorted_ascending array then Some (Inl AssertionError)
      else if method_name self \<notin> {''aggressive'', ''conservative''} then Some (Inl AssertionError)
      else if length array < min_points self then Some (Inr (self, []))
      else
        (case core_distances array (min_points self) of
           Inl e \<Rightarrow> Some (Inl e)
         | Inr dists \<Rightarrow>
             (case (if max_eps self = None \<or> max_eps self = Some 0
                    then (case fork_epsilon array (min_points self) of
                            Inl e \<Rightarrow> Inl e
                          | Inr None \<Rightarrow> Inl TypeError
                          | Inr (Some f) \<Rightarrow> Inr (int64 (f - 1)))
                    else Inr (the (max_eps self)))
              of Inl e \<Rightarrow> Some (Inl e)
               | Inr e_max \<Rightarrow>
                   let self1 = self\<lparr>max_eps := Some e_max\<rparr>;
                       dists1 = (if min_eps self = None \<or> min_eps self = Some 0 then dists
                                 else map (\<lambda>d. max (the (min_eps self)) d) dists);
                       points = map (\<lambda>(i, v, d). \<lparr>p_value = v, p_index = i, core_dist = d\<rparr>)
                                    (zip [0..<length array] (zip array dists1))
                   in (case cluster array (min_points self) e_max of
                         Inl e \<Rightarrow> Some (Inl e)
                       | Inr initial_cluster_bounds \<Rightarrow>
                           let child_points =
                                 map (\<lambda>(left, right). take (right - left) (drop left points))
                                     initial_cluster_bounds
                           in map_option
                                (map_sum id (\<lambda>clusters. (self1, flatten_list (Children clusters))))
                                (collect_children
                                   (map (\<lambda>points. traverse_cluster_tree depth self1 points e_max)
                                        child_points))))))"

text \<open>\<open>UDBSCANxH.fit\<close>.\<close>

definition UDBSCANxH_fit :: "nat \<Rightarrow> udbscanxh \<Rightarrow> int list \<Rightarrow> (error + udbscanxh) option" where
  "UDBSCANxH_fit depth self array =
     map_option (map_sum id (\<lambda>(self1, found). self1\<lparr>input_array := array, slices := found\<rparr>))
       (run depth self array)"

subsection \<open>Notions used to state the properties of the clusterers\<close>

text \<open>
  The interval merge in words: walk the slices in order with a current slice; a next
  slice whose lower bound is strictly below the current upper bound extends the current
  slice to its own upper bound, any other next slice makes the current one final and
  becomes the current slice.
\<close>

fun merge_overlapping :: "slice \<Rightarrow> slice list \<Rightarrow> slice list" where
  "merge_overlapping cur [] = [cur]"
| "merge_overlapping cur (nxt # rest) =
     (if fst nxt < snd cur then merge_overlapping (fst cur, snd nxt) rest
      else cur # merge_overlapping nxt rest)"

text \<open>The same walk merging also a next slice that starts exactly at the current upper bound.\<close>

fun merge_touching :: "slice \<Rightarrow> slice list \<Rightarrow> slice list" where
  "merge_touching cur [] = [cur]"
| "merge_touching cur (nxt # rest) =
     (if fst nxt \<le> snd cur then merge_touching (fst cur, snd nxt) rest
      else cur # merge_touching nxt rest)"

text \<open>Emitted slices in ascending order without overlap: each ends where or before the next begins.\<close>

definition ascending_disjoint :: "slice list \<Rightarrow> bool" where
  "ascending_disjoint found = sorted_wrt (\<lambda>a b. snd a \<le> fst b) found"

text \<open>
  An array none of whose differences leaves the 64-bit range: on such an array the
  subtractions of the code are exact.
\<close>

definition no_overflow :: "int list \<Rightarrow> bool" where
  "no_overflow X = list_all (\<lambda>x. list_all (\<lambda>y. is_int64 (x - y)) X) X"

text \<open>A threshold given to a constructor: absent, or an integer of the 64-bit range.\<close>

definition int64_threshold :: "int option \<Rightarrow> bool" where
  "int64_threshold t = (case t of None \<Rightarrow> True | Some e \<Rightarrow> is_int64 e)"

text \<open>
  The spans of the windows of \<open>k\<close> consecutive entries, exact (\<open>spans\<close>) and as the code
  computes them in 64 bits (\<open>spans64\<close>), and the coverage minimum: the least of the
  values \<open>e[j]\<close> over the at most \<open>r\<close> positions \<open>j\<close> whose window of width \<open>r\<close> reaches
  column \<open>c\<close>.
\<close>

definition spans :: "int list \<Rightarrow> nat \<Rightarrow> int list" where
  "spans X k = map (\<lambda>j. X ! (j + k - 1) - X ! j) [0..<length X + 1 - k]"

definition spans64 :: "int list \<Rightarrow> nat \<Rightarrow> int list" where
  "spans64 X k = map (\<lambda>j. int64 (X ! (j + k - 1) - X ! j)) [0..<length X + 1 - k]"

definition coverage_min :: "int list \<Rightarrow> nat \<Rightarrow> nat \<Rightarrow> int" where
  "coverage_min e r c = Min ((\<lambda>j. e ! j) ` {j. j < length e \<and> j \<le> c \<and> c < j + r})"

text \<open>
  The fork epsilon in words: on the coverage minima over windows of \<open>k - 1\<close> spans, one
  value per gap between neighbouring entries, plateau runs are deleted and the strict
  local peaks (greater than both neighbours) are what survives.
\<close>

definition fork_candidates :: "int list \<Rightarrow> nat \<Rightarrow> int list" where
  "fork_candidates X k =
     remdups_adj (map (coverage_min (spans X k) (k - 1)) [0..<length X - 1])"

definition fork_candidates64 :: "int list \<Rightarrow> nat \<Rightarrow> int list" where
  "fork_candidates64 X k =
     remdups_adj (map (coverage_min (spans64 X k) (k - 1)) [0..<length X - 1])"

definition strict_peaks :: "int list \<Rightarrow> int set" where
  "strict_peaks s =
     {s ! i | i. 0 < i \<and> i + 1 < length s \<and> s ! (i - 1) < s ! i \<and> s ! (i + 1) < s ! i}"

text \<open>The boolean array \<open>is_peak\<close> that \<open>_fork_epsilon\<close> computes from the plateau-free values.\<close>

definition is_peak :: "int list \<Rightarrow> bool list" where
  "is_peak s = map2 (\<lambda>a b. a \<and> b)
                 (False # map2 (\<lambda>a b. a > b) (tl s) (butlast s))
                 (map2 (\<lambda>a b. a > b) (butlast s) (tl s) @ [False])"

text \<open>
  The starts of the dense windows (\<open>k\<close> consecutive entries of span at most \<open>eps\<close>), and a
  slice every gap of which is bridged by a dense window: each column \<open>c\<close> inside the slice
  has a dense start at most \<open>k - 2\<close> positions before it.
\<close>

definition dense_starts :: "int list \<Rightarrow> nat \<Rightarrow> int \<Rightarrow> nat list" where
  "dense_starts X k eps = filter (\<lambda>j. spans64 X k ! j \<le> eps) [0..<length X + 1 - k]"

definition chained :: "nat set \<Rightarrow> nat \<Rightarrow> slice \<Rightarrow> bool" where
  "chained J k s = (\<forall>c. fst s \<le> c \<and> c + 2 \<le> snd s \<longrightarrow> (\<exists>j \<in> J. j \<le> c \<and> c \<le> j + (k - 2)))"

section \<open>Read loci: tips, fingerprints and the comparison against bins\<close>

text \<open>
  A read locus is a row (start, stop, name) of \<open>ReadLoci._DTYPE_LOCI\<close>. \<open>loci["stop"]\<close> and
  \<open>loci["start"]\<close> are views of one column of the stored array: what \<open>tips\<close> hands out
  is named by the column it aliases, and writing through the view writes the column.
\<close>

type_synonym read_locus = "int \<times> int \<times> string"

datatype column = Start | Stop

definition read_column :: "column \<Rightarrow> read_locus list \<Rightarrow> int list" where
  "read_column col loci =
     (case col of Start \<Rightarrow> map (\<lambda>(start, stop, name0). start) loci
                | Stop \<Rightarrow> map (\<lambda>(start, stop, name0). stop) loci)"

definition write_column :: "column \<Rightarrow> int list \<Rightarrow> read_locus list \<Rightarrow> read_locus list" where
  "write_column col vs loci =
     (case col of
        Start \<Rightarrow> map (\<lambda>(v, (start, stop, name0)). (v, stop, name0)) (zip vs loci)
      | Stop \<Rightarrow> map (\<lambda>(v, (start, stop, name0)). (start, v, name0)) (zip vs loci))"

text \<open>\<open>ReadLoci.tips\<close>: \<open>group[1]\<close> is the strand; the forward strand gives the stops.\<close>

definition tips_column :: "group4 \<Rightarrow> column" where
  "tips_column key = (case key of (reference, strand0, category, source) \<Rightarrow>
                        if strand0 = ''+'' then Stop else Start)"

definition tips :: "(group4, read_locus list) dict \<Rightarrow> (group4, int list) dict" where
  "tips self = map (\<lambda>(key, loci). (key, read_column (tips_column key) loci)) self"

text \<open>
  \<open>ReadLoci.fingerprint\<close>. The classes \<open>UDC\<close> and \<open>HUDC\<close> of \<open>tectoolkit.cluster\<close> are not
  among the sources at hand: fitting a model and reading its cluster extremities is the
  parameter \<open>model\<close> (hierarchical, min_reads, eps, min_eps, tips). The loop visits the
  groups in order; \<open>tips.sort()\<close> sorts the view in place, that is the column of the stored
  array, before the model is fitted. The result is the object as the call leaves it,
  together with the fingerprint or the exception of the model.
\<close>

fun fingerprint_loop ::
  "(int list \<Rightarrow> error + interval list) \<Rightarrow> (group4 \<times> read_locus list) list \<Rightarrow>
   (group4, read_locus list) dict \<Rightarrow> (group4, interval list) dict \<Rightarrow>
   (group4, read_locus list) dict \<times> (error + (group4, interval list) dict)" where
  "fingerprint_loop fit [] visited dictionary = (visited, Inr dictionary)"
| "fingerprint_loop fit ((key, loci) # rest) visited dictionary =
     (let col = tips_column key;
          sorted_tips = sort (read_column col loci);
          stored = write_column col sorted_tips loci
      in case fit sorted_tips of
           Inl e \<Rightarrow> (visited @ (key, stored) # rest, Inl e)
         | Inr positions \<Rightarrow>
             fingerprint_loop fit rest (visited @ [(key, stored)])
               (dict_set dictionary key positions))"

definition fingerprint ::
  "(bool \<Rightarrow> nat \<Rightarrow> int \<Rightarrow> int \<Rightarrow> int list \<Rightarrow> error + interval list) \<Rightarrow>
   (group4, read_locus list) dict \<Rightarrow> nat \<Rightarrow> int \<Rightarrow> int \<Rightarrow> bool \<Rightarrow>
   (group4, read_locus list) dict \<times> (error + (group4, interval list) dict)" where
  "fingerprint model self min_reads eps min_eps0 hierarchical =
     fingerprint_loop (model hierarchical min_reads eps min_eps0) self [] []"

text \<open>
  \<open>ComparativeBins.compare\<close>. A row of the result is (start, stop, samples, counts). The
  samples are the sources of all the read groups, sorted; a bin group that lacks the read
  group of one of them raises KeyError at \<open>tips_dict[(*group, sample)]\<close>. The two object
  columns are read as holding, for each bin, the array of samples and the array of counts.
\<close>

type_synonym comparison_row = "int \<times> int \<times> string list \<times> nat list"

definition source_of :: "group4 \<Rightarrow> string" where
  "source_of key = (case key of (reference, strand0, category, source) \<Rightarrow> source)"

definition with_sample :: "group3 \<Rightarrow> string \<Rightarrow> group4" where
  "with_sample key sample = (case key of (reference, strand0, category) \<Rightarrow>
                               (reference, strand0, category, sample))"

definition count_tips :: "int list \<Rightarrow> int \<Rightarrow> int \<Rightarrow> nat" where
  "count_tips ts start stop = length (filter (\<lambda>t. t \<ge> start \<and> t \<le> stop) ts)"

definition compare_group ::
  "string list \<Rightarrow> (group4, int list) dict \<Rightarrow> group3 \<times> interval list \<Rightarrow>
   error + group3 \<times> comparison_row list" where
  "compare_group samples tips_dict item =
     (case item of (key, bins) \<Rightarrow>
        sum_bind (sequence_sum (map (\<lambda>sample. dict_get tips_dict (with_sample key sample)) samples))
          (\<lambda>sample_tips.
             Inr (key, map (\<lambda>(start, stop).
                              (start, stop, samples,
                               map (\<lambda>ts. count_tips ts start stop) sample_tips))
                           bins)))"

definition compare ::
  "(group3, interval list) dict \<Rightarrow> (group4, read_locus list) dict \<Rightarrow>
   error + (group3, comparison_row list) dict" where
  "compare self reads =
     (let samples = sort (remdups (map (\<lambda>item. source_of (fst item)) reads));
          tips_dict = tips reads
      in sequence_sum (map (compare_group samples tips_dict) self))"

subsection \<open>The comparison in words\<close>

text \<open>
  For a bin group: the ascending list of the distinct sources of the read groups with
  that (reference, strand, category); the tips of one read group (none when the group is
  absent); and the comparison built from them, one row per bin. \<open>covers\<close> says that
  every source of the reads has a read group under every bin group.
\<close>

definition sources_of :: "(group4, read_locus list) dict \<Rightarrow> group3 \<Rightarrow> string list" where
  "sources_of reads key =
     sort (remdups (map (\<lambda>item. source_of (fst item))
                        (filter (\<lambda>item. group3_of (fst item) = key) reads)))"

definition tips_of :: "(group4, read_locus list) dict \<Rightarrow> group4 \<Rightarrow> int list" where
  "tips_of reads key = (case map_of (tips reads) key of None \<Rightarrow> [] | Some ts \<Rightarrow> ts)"

definition comparison_of ::
  "(group3, interval list) dict \<Rightarrow> (group4, read_locus list) dict \<Rightarrow>
   (group3, comparison_row list) dict" where
  "comparison_of bins_dict reads =
     map (\<lambda>(key, bins).
            (key, map (\<lambda>(start, stop).
                         (start, stop, sources_of reads key,
                          map (\<lambda>sample. count_tips (tips_of reads (with_sample key sample))
                                                    start stop)
                              (sources_of reads key)))
                      bins))
         bins_dict"

definition group_covered :: "(group4, read_locus list) dict \<Rightarrow> group3 \<Rightarrow> bool" where
  "group_covered reads key =
     list_all (\<lambda>item. with_sample key (source_of (fst item)) \<in> fst ` set reads) reads"

definition covers :: "(group4, read_locus list) dict \<Rightarrow> (group3, interval list) dict \<Rightarrow> bool" where
  "covers reads bins_dict =
     list_all (\<lambda>key. list_all (\<lambda>item. with_sample key (source_of (fst item)) \<in> fst ` set reads)
                              reads)
              (map fst bins_dict)"

text \<open>The scenarios used below.\<close>

definition bins_gypsy :: "(group3, interval list) dict" where
  "bins_gypsy = [((''chr1'', ''+'', ''gypsy''), [(100, 200)])]"

definition reads_two_samples :: "(group4, read_locus list) dict" where
  "reads_two_samples =
     [((''chr1'', ''+'', ''gypsy'', ''sampleA''), [(55, 105, ''a1''), (100, 150, ''a2''), (200, 250, ''a3'')]),
      ((''chr1'', ''+'', ''gypsy'', ''sampleB''), [(149, 199, ''b1''), (150, 200, ''b2''), (151, 201, ''b3'')])]"

definition reads_other_contig :: "(group4, read_locus list) dict" where
  "reads_other_contig =
     [((''chr1'', ''+'', ''gypsy'', ''sampleA''), [(55, 105, ''a1'')]),
      ((''chr2'', ''+'', ''gypsy'', ''sampleB''), [(149, 199, ''b1'')])]"

definition reads_unsorted_tips :: "(group4, read_locus list) dict" where
  "reads_unsorted_tips = [((''chr1'', ''+'', ''gypsy'', ''sampleA''), [(1, 9, ''a''), (2, 5, ''b'')])]"

section \<open>Sequencing\<close>

lemma sum_bind_Inr [simp]: "sum_bind (Inr v) f = f v"
  by (simp add: sum_bind_def)

lemma sum_bind_Inl [simp]: "sum_bind (Inl e) f = Inl e"
  by (simp add: sum_bind_def)

section \<open>64-bit arithmetic\<close>

lemma two63_pos: "0 < two63"
  by (simp add: two63_def)

lemma int64_range: "is_int64 (int64 x)"
proof -
  have "0 \<le> (x + two63) mod (2 * two63)" "(x + two63) mod (2 * two63) < 2 * two63"
    using two63_pos by simp_all
  then show ?thesis by (simp add: is_int64_def int64_def)
qed

lemma int64_id: "is_int64 x \<Longrightarrow> int64 x = x"
proof -
  assume "is_int64 x"
  then have "0 \<le> x + two63" "x + two63 < 2 * two63" by (simp_all add: is_int64_def)
  then have "(x + two63) mod (2 * two63) = x + two63" by (rule mod_pos_pos_trivial)
  then show ?thesis by (simp add: int64_def)
qed

lemma int64_diff_zero:
  assumes "is_int64 a" and "is_int64 b"
  shows "(int64 (a - b) = 0) = (a = b)"
proof
  assume "a = b"
  then show "int64 (a - b) = 0" using two63_pos by (simp add: int64_def)
next
  assume z: "int64 (a - b) = 0"
  obtain q where q: "a - b + two63 = 2 * two63 * q + (a - b + two63) mod (2 * two63)"
    by (metis mult_div_mod_eq)
  from z have "(a - b + two63) mod (2 * two63) = two63" by (simp add: int64_def)
  with q have d: "a - b = 2 * two63 * q" by simp
  from assms have "- (2 * two63) < a - b" "a - b < 2 * two63" by (simp_all add: is_int64_def)
  with d have lo: "- (2 * two63) < 2 * two63 * q" and hi: "2 * two63 * q < 2 * two63"
    by simp_all
  have "q < 1"
  proof (rule ccontr)
    assume "\<not> q < 1"
    then have "1 \<le> q" by simp
    then have "2 * two63 * 1 \<le> 2 * two63 * q"
      using two63_pos by (intro mult_left_mono) simp_all
    with hi show False by simp
  qed
  moreover have "- 1 < q"
  proof (rule ccontr)
    assume "\<not> - 1 < q"
    then have "q \<le> - 1" by simp
    then have "2 * two63 * q \<le> 2 * two63 * (- 1)"
      using two63_pos by (intro mult_left_mono) simp_all
    with lo show False by simp
  qed
  ultimately have "q = 0" by simp
  with d show "a = b" by simp
qed

lemma no_overflow_diff:
  "no_overflow X \<Longrightarrow> x \<in> set X \<Longrightarrow> y \<in> set X \<Longrightarrow> int64 (x - y) = x - y"
  by (rule int64_id) (simp add: no_overflow_def list_all_iff)

lemma spans64_exact:
  assumes "no_overflow X" and "1 \<le> k"
  shows "spans64 X k = spans X k"
  unfolding spans64_def spans_def
proof (intro map_cong refl)
  fix j assume "j \<in> set [0..<length X + 1 - k]"
  then have j: "j < length X + 1 - k" by simp
  with assms(2) have a: "j + k - 1 < length X" and b: "j < length X" by simp_all
  have "X ! (j + k - 1) \<in> set X" using a by (rule nth_mem)
  moreover have "X ! j \<in> set X" using b by (rule nth_mem)
  ultimately show "int64 (X ! (j + k - 1) - X ! j) = X ! (j + k - 1) - X ! j"
    using assms(1) by (intro no_overflow_diff)
qed

lemma fork_candidates64_exact:
  "no_overflow X \<Longrightarrow> 1 \<le> k \<Longrightarrow> fork_candidates64 X k = fork_candidates X k"
  by (simp add: fork_candidates64_def fork_candidates_def spans64_exact)

lemma spans64_int64: "v \<in> set (spans64 X k) \<Longrightarrow> is_int64 v"
  by (auto simp: spans64_def int64_range)

section \<open>Tip and tail of a parsed read\<close>

text \<open>
  Claim C10. A read on the + strand at position 2 with a SEQ of length 7 has tip 8 and
  tail 2, and a read on the - strand at position 7 with a SEQ of length 3 has tip 7 and
  tail 9. \<open>ReadGroup._parse_sam_strings\<close> computes exactly that (the end of the read is
  start + length - 1, SAM positions being 1-based and inclusive). \<open>parse_sam_strings\<close> of
  \<open>libtec.py\<close> takes start + length as the end and gives tip 9 and tail 10 on the same
  two lines.
\<close>

theorem parse_sam_tip_tail:
  "ReadGroup_parse_sam_strings flag_orientation [sam_forward] (Some ''+'')
     = Inr [Some \<lparr>tip = 8, tail = 2, strand = ''+'', name = ''Gypsy27_a''\<rparr>]
   \<and> ReadGroup_parse_sam_strings flag_orientation [sam_reverse] (Some ''-'')
     = Inr [Some \<lparr>tip = 7, tail = 9, strand = ''-'', name = ''Gypsy27_c''\<rparr>]
   \<and> parse_sam_strings [sam_forward] ''+'' = Inr [(9, 2, 7, True)]
   \<and> parse_sam_strings [sam_reverse] ''-'' = Inr [(7, 10, 3, False)]"
  by code_simp

section \<open>Melting is idempotent\<close>

lemma loci_melter_loop_fixed:
  "successively (\<lambda>a b. snd a < fst b) (x # xs) \<Longrightarrow>
   loci_melter_loop (fst x) (snd x) xs = x # xs"
proof (induction xs arbitrary: x)
  case Nil
  then show ?case by simp
next
  case (Cons y ys)
  from Cons.prems have gap: "snd x < fst y"
    and rest: "successively (\<lambda>a b. snd a < fst b) (y # ys)"
    by simp_all
  from Cons.IH [OF rest] gap show ?case
    by (cases y) simp
qed

lemma loci_melter_loop_shape:
  assumes "sorted (map fst rest)" and "sorted (map snd rest)"
    and "\<forall>p \<in> set rest. start \<le> fst p \<and> stop \<le> snd p"
  shows "loci_melter_loop start stop rest \<noteq> []
       \<and> fst (hd (loci_melter_loop start stop rest)) = start
       \<and> stop \<le> snd (hd (loci_melter_loop start stop rest))
       \<and> sorted (map fst (loci_melter_loop start stop rest))
       \<and> sorted (map snd (loci_melter_loop start stop rest))
       \<and> successively (\<lambda>a b. snd a < fst b) (loci_melter_loop start stop rest)"
  using assms
proof (induction rest arbitrary: start stop)
  case Nil
  then show ?case by simp
next
  case (Cons p rest)
  obtain s e where p: "p = (s, e)" by (cases p)
  from Cons.prems p have srt: "sorted (map fst rest)" "sorted (map snd rest)"
    and lo: "\<forall>q \<in> set rest. s \<le> fst q \<and> e \<le> snd q"
    and first: "start \<le> s" "stop \<le> e"
    by auto
  show ?case
  proof (cases "s \<le> stop")
    case True
    show ?thesis
    proof (cases "e > stop")
      case True
      from lo first have "\<forall>q \<in> set rest. start \<le> fst q \<and> e \<le> snd q" by auto
      from Cons.IH [OF srt this] \<open>s \<le> stop\<close> True first show ?thesis
        by (simp add: p)
    next
      case False
      with first have "e = stop" by simp
      with lo first have "\<forall>q \<in> set rest. start \<le> fst q \<and> stop \<le> snd q" by auto
      from Cons.IH [OF srt this] \<open>s \<le> stop\<close> False show ?thesis
        by (simp add: p)
    qed
  next
    case False
    let ?out = "loci_melter_loop s e rest"
    from Cons.IH [OF srt lo] have ne: "?out \<noteq> []" and h: "fst (hd ?out) = s"
      and t: "e \<le> snd (hd ?out)" and s1: "sorted (map fst ?out)"
      and s2: "sorted (map snd ?out)" and sc: "successively (\<lambda>a b. snd a < fst b) ?out"
      by simp_all
    obtain o1 os where out: "?out = o1 # os" using ne by (cases ?out) auto
    from s1 h out first have a: "sorted (map fst ((start, stop) # ?out))"
      by auto
    from s2 t out first have b: "sorted (map snd ((start, stop) # ?out))"
      by auto
    from sc h out False have c: "successively (\<lambda>a b. snd a < fst b) ((start, stop) # ?out)"
      by auto
    from a b c False show ?thesis by (simp add: p)
  qed
qed

lemma loci_melter_shape:
  assumes "loci_melter array = Inr out"
  shows "out \<noteq> [] \<and> sorted (map fst out) \<and> sorted (map snd out)
       \<and> successively (\<lambda>a b. snd a < fst b) out"
proof -
  let ?ss = "sort (map fst array)" and ?es = "sort (map snd array)"
  from assms obtain start stop rest where z: "zip ?ss ?es = (start, stop) # rest"
    and out: "out = loci_melter_loop start stop rest"
    by (auto simp: loci_melter_def Let_def split: list.splits)
  have len: "length ?ss = length ?es" by simp
  have "map fst (zip ?ss ?es) = ?ss" "map snd (zip ?ss ?es) = ?es"
    using len by (simp_all del: length_sort)
  then have "sorted (map fst ((start, stop) # rest))" "sorted (map snd ((start, stop) # rest))"
    using z by (metis sorted_sort)+
  then have "sorted (map fst rest)" "sorted (map snd rest)"
    "\<forall>p \<in> set rest. start \<le> fst p \<and> stop \<le> snd p"
    by auto
  from loci_melter_loop_shape [OF this] out show ?thesis by simp
qed

lemma loci_melter_fixed:
  assumes "xs \<noteq> []" and "sorted (map fst xs)" and "sorted (map snd xs)"
    and "successively (\<lambda>a b. snd a < fst b) xs"
  shows "loci_melter xs = Inr xs"
proof -
  obtain x rest where xs: "xs = x # rest" using assms(1) by (cases xs) auto
  have "zip (sort (map fst xs)) (sort (map snd xs)) = xs"
    using assms(2,3) by (simp add: sorted_sort_id zip_map_fst_snd)
  with xs assms(4) loci_melter_loop_fixed [of x rest] show ?thesis
    by (cases x) (simp add: loci_melter_def)
qed

text \<open>
  Claim C8. For any interval set (any order, overlapping or not), melting the melted
  intervals again gives the melted intervals: the second pass of \<open>_loci_melter\<close> returns
  what the first returned. On the empty array both raise the same IndexError.
\<close>

theorem loci_melter_idempotent:
  "sum_bind (loci_melter array) loci_melter = loci_melter array"
proof (cases "loci_melter array")
  case (Inl e)
  then show ?thesis by simp
next
  case (Inr out)
  from loci_melter_shape [OF Inr] have "loci_melter out = Inr out"
    by (intro loci_melter_fixed) simp_all
  with Inr show ?thesis by simp
qed

section \<open>The union of loci does not depend on the order of its arguments\<close>

lemma collected_Nil [simp]: "collected [] g = []"
  by (simp add: collected_def)

lemma collected_Cons:
  "collected ((k, loci) # items) g =
     (if group3_of k = g then loci @ collected items g else collected items g)"
  by (simp add: collected_def)

lemma collected_append: "collected (xs @ ys) g = collected xs g @ collected ys g"
  by (simp add: collected_def)

lemma from_union_append_items:
  assumes "\<forall>item \<in> set items. group3_of (fst item) \<in> fst ` set d"
  shows "\<exists>d'. fold_sum from_union_append d items = Inr d'
            \<and> map fst d' = map fst d
            \<and> (\<forall>g. map_of d' g = map_option (\<lambda>old. old @ collected items g) (map_of d g))"
  using assms
proof (induction items arbitrary: d)
  case Nil
  show ?case by (simp add: option.map_ident)
next
  case (Cons item items)
  obtain k loci where item: "item = (k, loci)" by (cases item)
  from Cons.prems item have "group3_of k \<in> fst ` set d" by simp
  then obtain old where old: "map_of d (group3_of k) = Some old"
    by (metis domD dom_map_of_conv_image_fst)
  let ?d1 = "dict_set d (group3_of k) (old @ loci)"
  have step: "from_union_append d item = Inr ?d1"
    by (simp add: from_union_append_def item dict_get_def old)
  have keys: "map fst ?d1 = map fst d"
    using \<open>group3_of k \<in> fst ` set d\<close> by (simp add: dict_set_def update_keys)
  have vals: "map_of ?d1 = (map_of d)(group3_of k \<mapsto> old @ loci)"
    by (simp add: dict_set_def update_conv')
  from Cons.prems keys have "\<forall>it \<in> set items. group3_of (fst it) \<in> fst ` set ?d1"
    by (metis list.set_intros(2) set_map)
  from Cons.IH [OF this] obtain d' where d': "fold_sum from_union_append ?d1 items = Inr d'"
    "map fst d' = map fst ?d1"
    "\<forall>g. map_of d' g = map_option (\<lambda>old. old @ collected items g) (map_of ?d1 g)"
    by blast
  have "\<forall>g. map_of d' g = map_option (\<lambda>old. old @ collected (item # items) g) (map_of d g)"
    using d'(3) old by (auto simp: vals item collected_Cons)
  with d' step keys show ?case by simp
qed

lemma from_union_append_args:
  assumes "\<forall>item \<in> set (concat args). group3_of (fst item) \<in> fst ` set d"
  shows "\<exists>d'. fold_sum (fold_sum from_union_append) d args = Inr d'
            \<and> map fst d' = map fst d
            \<and> (\<forall>g. map_of d' g = map_option (\<lambda>old. old @ collected (concat args) g) (map_of d g))"
  using assms
proof (induction args arbitrary: d)
  case Nil
  show ?case by (simp add: option.map_ident)
next
  case (Cons arg args)
  from Cons.prems have "\<forall>item \<in> set arg. group3_of (fst item) \<in> fst ` set d" by simp
  from from_union_append_items [OF this] obtain d1 where d1:
    "fold_sum from_union_append d arg = Inr d1" "map fst d1 = map fst d"
    "\<forall>g. map_of d1 g = map_option (\<lambda>old. old @ collected arg g) (map_of d g)"
    by blast
  from Cons.prems d1(2) have "\<forall>item \<in> set (concat args). group3_of (fst item) \<in> fst ` set d1"
    by (metis UnCI concat.simps(2) set_append set_map)
  from Cons.IH [OF this] obtain d' where d':
    "fold_sum (fold_sum from_union_append) d1 args = Inr d'" "map fst d' = map fst d1"
    "\<forall>g. map_of d' g = map_option (\<lambda>old. old @ collected (concat args) g) (map_of d1 g)"
    by blast
  have "\<forall>g. map_of d' g
           = map_option (\<lambda>old. old @ collected (concat (arg # args)) g) (map_of d g)"
    using d'(3) d1(3) by (simp add: collected_append option.map_comp comp_def)
  with d' d1 show ?case by simp
qed

lemma dict_by_keys:
  "distinct (map fst d) \<Longrightarrow> d = map (\<lambda>k. (k, the (map_of d k))) (map fst d)"
proof (induction d)
  case Nil
  show ?case by simp
next
  case (Cons p d)
  from Cons.prems have notin: "fst p \<notin> set (map fst d)" and dist: "distinct (map fst d)"
    by simp_all
  have tl: "map (\<lambda>k. (k, the (map_of (p # d) k))) (map fst d)
      = map (\<lambda>k. (k, the (map_of d k))) (map fst d)"
  proof (intro map_cong refl)
    fix k assume "k \<in> set (map fst d)"
    with notin have "k \<noteq> fst p" by blast
    then show "(k, the (map_of (p # d) k)) = (k, the (map_of d k))"
      by (cases p) auto
  qed
  have hd: "(fst p, the (map_of (p # d) (fst p))) = p"
    by (cases p) simp
  have "map (\<lambda>k. (k, the (map_of (p # d) k))) (map fst (p # d))
      = (fst p, the (map_of (p # d) (fst p)))
        # map (\<lambda>k. (k, the (map_of (p # d) k))) (map fst d)"
    by (simp only: list.map)
  also have "\<dots> = p # map (\<lambda>k. (k, the (map_of d k))) (map fst d)"
    by (simp only: hd tl)
  also have "\<dots> = p # d"
    using Cons.IH [OF dist] by simp
  finally show ?case by (rule sym)
qed

lemma from_union_collected:
  "from_union args = sequence_sum (map (melted (concat args)) (union_groups args))"
proof -
  let ?gs = "union_groups args"
  let ?d = "map (\<lambda>key. (key, [] :: interval list)) ?gs"
  have keys0: "map fst ?d = ?gs" by (simp add: comp_def)
  have "\<forall>item \<in> set (concat args). group3_of (fst item) \<in> fst ` set ?d"
    by (auto simp: union_groups_def image_iff)
  from from_union_append_args [OF this] obtain d' where d':
    "fold_sum (fold_sum from_union_append) ?d args = Inr d'" "map fst d' = map fst ?d"
    "\<forall>g. map_of d' g = map_option (\<lambda>old. old @ collected (concat args) g) (map_of ?d g)"
    by blast
  have dist: "distinct (map fst d')" using d'(2) keys0 by (simp add: union_groups_def)
  have "\<forall>g \<in> set ?gs. map_of ?d g = Some []"
    by (simp add: map_of_map_restrict)
  then have "\<forall>g \<in> set ?gs. the (map_of d' g) = collected (concat args) g"
    using d'(3) by (metis append_Nil option.sel option.simps(9))
  then have same: "map (\<lambda>k. (k, the (map_of d' k))) ?gs
           = map (\<lambda>g. (g, collected (concat args) g)) ?gs"
    by (intro map_cong) auto
  have keys: "map fst d' = ?gs" using d'(2) keys0 by simp
  have "d' = map (\<lambda>k. (k, the (map_of d' k))) (map fst d')"
    by (rule dict_by_keys [OF dist])
  also have "\<dots> = map (\<lambda>g. (g, collected (concat args) g)) ?gs"
    by (simp only: keys same)
  finally have "d' = map (\<lambda>g. (g, collected (concat args) g)) ?gs" .
  with d'(1) show ?thesis
    by (simp add: from_union_def Let_def union_groups_def comp_def melted_def [abs_def])
qed

lemma loci_melter_mset:
  assumes "mset xs = mset ys"
  shows "loci_melter xs = loci_melter ys"
proof -
  from assms have "mset (map fst xs) = mset (map fst ys)" "mset (map snd xs) = mset (map snd ys)"
    by (metis mset_map)+
  then have "sort (map fst xs) = sort (map fst ys)" "sort (map snd xs) = sort (map snd ys)"
    by (metis mset_sort properties_for_sort sorted_sort)+
  then show ?thesis by (simp add: loci_melter_def)
qed

lemma loci_melter_error: "loci_melter xs = Inl e \<Longrightarrow> e = IndexError"
  by (auto simp: loci_melter_def Let_def split: list.splits)

lemma melted_error: "melted items g = Inl e \<Longrightarrow> e = IndexError"
  by (cases "loci_melter (collected items g)")
     (auto simp: melted_def from_union_melt_def dest: loci_melter_error)

lemma melted_fst: "melted items g = Inr r \<Longrightarrow> fst r = g"
  by (cases "loci_melter (collected items g)") (auto simp: melted_def from_union_melt_def)

lemma melted_commute: "melted (a @ b) g = melted (b @ a) g"
proof -
  have "loci_melter (collected (a @ b) g) = loci_melter (collected (b @ a) g)"
    by (intro loci_melter_mset) (simp add: collected_append)
  then show ?thesis by (simp add: melted_def from_union_melt_def)
qed

lemma sequence_melted:
  "dict_result (sequence_sum (map (melted items) gs)) =
     (if \<exists>g \<in> set gs. isl (melted items g) then Inl IndexError
      else Inr (\<lambda>g. if g \<in> set gs then Some (snd (projr (melted items g))) else None))"
proof (induction gs)
  case Nil
  show ?case by (simp add: dict_result_def)
next
  case (Cons g gs)
  show ?case
  proof (cases "melted items g")
    case (Inl e)
    with melted_error [OF Inl] show ?thesis by (simp add: dict_result_def)
  next
    case (Inr r)
    note r = Inr melted_fst [OF Inr]
    show ?thesis
    proof (cases "sequence_sum (map (melted items) gs)")
      case (Inl e)
      with Cons.IH r show ?thesis
        by (auto simp: dict_result_def split: if_splits)
    next
      case (Inr rs)
      with Cons.IH r show ?thesis
        by (cases r) (auto simp: dict_result_def fun_eq_iff split: if_splits)
    qed
  qed
qed

text \<open>
  Claim C9. For loci groups \<open>a\<close> and \<open>b\<close> of the same shape,
  \<open>ComparativeBins.from_union(a, b)\<close> and \<open>ComparativeBins.from_union(b, a)\<close> are equal as
  dictionaries: the same projected (reference, strand, category) keys, each with the same
  ascending sequence of melted intervals. (A projected key that collects no interval at
  all makes both calls raise the same IndexError.)
\<close>

theorem from_union_commutative:
  "dict_result (from_union [a, b]) = dict_result (from_union [b, a])"
proof -
  have groups: "set (union_groups [a, b]) = set (union_groups [b, a])"
    by (auto simp: union_groups_def)
  have order: "melted (a @ b) = melted (b @ a)"
    by (rule ext) (rule melted_commute)
  have "dict_result (from_union [a, b])
      = dict_result (sequence_sum (map (melted (a @ b)) (union_groups [a, b])))"
    by (simp add: from_union_collected)
  also have "\<dots> = dict_result (sequence_sum (map (melted (b @ a)) (union_groups [b, a])))"
    unfolding sequence_melted groups order ..
  also have "\<dots> = dict_result (from_union [b, a])"
    by (simp add: from_union_collected)
  finally show ?thesis .
qed

section \<open>The interval merge of the flat clusterer\<close>

lemma splits_nth:
  assumes "length ls = length us" and "0 < i" and "i < length ls"
  shows "(False # map2 (\<lambda>u l. u \<le> l) (butlast us) (tl ls)) ! i = (us ! (i - 1) \<le> ls ! i)"
proof -
  obtain j where i: "i = Suc j" using assms(2) by (cases i) auto
  with assms have "j < length (zip (butlast us) (tl ls))" by simp
  then show ?thesis
    using assms i by (simp add: nth_butlast nth_tl)
qed

lemma melter_loop:
  assumes "length ls = length us" and "z = zip ls us"
    and "splits = False # map2 (\<lambda>u l. u \<le> l) (butlast us) (tl ls)"
    and "0 < i" and "i \<le> length ls" and "u = us ! (i - 1)"
  shows "(case foldl (melter_step z us splits) (l, u, out) [i..<length ls] of
            (l', u', out') \<Rightarrow> out' @ [(l', u')]) = out @ merge_overlapping (l, u) (drop i z)"
  using assms(4-6)
proof (induction "length ls - i" arbitrary: i l u out)
  case 0
  then have "i = length ls" by simp
  then show ?case using assms(1,2) by simp
next
  case (Suc d)
  then have i: "i < length ls" by simp
  have lenz: "length z = length ls" using assms(1,2) by simp
  have zi: "z ! i = (ls ! i, us ! i)" using assms(1,2) i by simp
  have dr: "drop i z = z ! i # drop (Suc i) z"
    using i lenz by (simp add: Cons_nth_drop_Suc)
  have sp: "splits ! i = (u \<le> ls ! i)"
    using splits_nth [OF assms(1) Suc.prems(1) i] assms(3) Suc.prems(3) by simp
  have up: "[i..<length ls] = i # [Suc i..<length ls]"
    using i by (simp add: upt_conv_Cons)
  have d: "d = length ls - Suc i" using Suc.hyps(2) by simp
  show ?case
  proof (cases "u \<le> ls ! i")
    case True
    have "(case foldl (melter_step z us splits) (ls ! i, us ! i, out @ [(l, u)])
                 [Suc i..<length ls] of (l', u', out') \<Rightarrow> out' @ [(l', u')])
        = (out @ [(l, u)]) @ merge_overlapping (ls ! i, us ! i) (drop (Suc i) z)"
      using i by (intro Suc.hyps(1) [OF d]) simp_all
    with True sp zi show ?thesis
      by (simp add: up dr melter_step_def)
  next
    case False
    have "(case foldl (melter_step z us splits) (l, us ! i, out)
                 [Suc i..<length ls] of (l', u', out') \<Rightarrow> out' @ [(l', u')])
        = out @ merge_overlapping (l, us ! i) (drop (Suc i) z)"
      using i by (intro Suc.hyps(1) [OF d]) simp_all
    with False sp zi show ?thesis
      by (simp add: up dr melter_step_def)
  qed
qed

lemma melt_slices_empty: "melt_slices [] = Inl IndexError"
  by (simp add: melt_slices_def melter_def)

lemma melt_slices_nonempty:
  assumes "slices0 \<noteq> []"
  shows "melt_slices slices0 =
           Inr (merge_overlapping (hd (zip (sort (map fst slices0)) (sort (map snd slices0))))
                                  (tl (zip (sort (map fst slices0)) (sort (map snd slices0)))))"
proof -
  from assms obtain s ss where Cons: "slices0 = s # ss" by (cases slices0) auto
  let ?ls = "sort (map fst slices0)" and ?us = "sort (map snd slices0)"
  let ?z = "zip ?ls ?us"
  let ?splits = "False # map2 (\<lambda>u l. u \<le> l) (butlast ?us) (tl ?ls)"
  have len: "length ?ls = length ?us" by simp
  have pos: "0 < length ?ls" using Cons by simp
  then have ne: "?ls \<noteq> []" "?us \<noteq> []" using len by (auto simp del: length_sort)
  obtain cur rest where z: "?z = cur # rest"
    using ne by (cases ?z) (auto simp: zip_eq_Nil_iff)
  have cur: "cur = (?ls ! 0, ?us ! 0)"
    using z pos len by (metis length_greater_0_conv ne(2) nth_Cons_0 nth_zip)
  have rest: "rest = drop 1 ?z" using z by simp
  have "(case foldl (melter_step ?z ?us ?splits) (?ls ! 0, ?us ! 0, []) [1..<length ?ls] of
            (l', u', out') \<Rightarrow> out' @ [(l', u')])
      = [] @ merge_overlapping (?ls ! 0, ?us ! 0) (drop 1 ?z)"
    using pos Cons by (intro melter_loop [OF len refl refl]) simp_all
  then have "melter ?z ?ls ?us ?splits = Inr (merge_overlapping cur rest)"
    using ne cur rest by (simp add: melter_def split: prod.splits)
  then show ?thesis
    by (simp add: melt_slices_def Let_def z)
qed

text \<open>
  Claim C5, as the code has it. \<open>_melt_slices\<close> sorts the lower bounds and the upper
  bounds (each column by itself; a sequence whose two columns are already ascending, as
  the subcluster scan produces, is left as it is) and walks the paired sequence in order:
  the next slice is merged into the current one exactly when its lower bound is strictly
  less than the current upper bound, and otherwise the current slice is emitted and the
  walk restarts from the next slice. Slices that only touch (next lower bound equal to the
  current upper bound) stay separate.
\<close>

theorem melt_slices_merges_overlapping:
  "melt_slices slices0 =
     (case zip (sort (map fst slices0)) (sort (map snd slices0)) of
        [] \<Rightarrow> Inl IndexError
      | cur # rest \<Rightarrow> Inr (merge_overlapping cur rest))"
proof (cases "zip (sort (map fst slices0)) (sort (map snd slices0))")
  case Nil
  have "length (zip (sort (map fst slices0)) (sort (map snd slices0))) = length slices0"
    by simp
  with Nil have "slices0 = []" by (metis length_0_conv)
  with Nil show ?thesis by (simp add: melt_slices_empty)
next
  case (Cons cur rest)
  then have "slices0 \<noteq> []" by auto
  from melt_slices_nonempty [OF this] Cons show ?thesis by simp
qed

text \<open>
  The claim as stated merges on "less than or equal": on the adjacent slices from 0 to 3
  and from 3 to 6 it would return the single slice from 0 to 6, and the code returns both.
\<close>

theorem melt_slices_adjacent_counterexample:
  "melt_slices [(0, 3), (3, 6)] \<noteq> Inr (merge_touching (0, 3) [(3, 6)])
   \<and> melt_slices [(0, 3), (3, 6)] = Inr [(0, 3), (3, 6)]"
  by (simp add: melt_slices_nonempty)

section \<open>Core distances\<close>

lemma array_sub_spans:
  assumes "1 \<le> k" and "k \<le> length X"
  shows "array_sub (drop (k - 1) X) (take (length X - (k - 1)) X) = spans64 X k"
proof (rule nth_equalityI)
  show "length (array_sub (drop (k - 1) X) (take (length X - (k - 1)) X)) = length (spans64 X k)"
    using assms by (simp add: array_sub_def spans64_def)
next
  fix j assume "j < length (array_sub (drop (k - 1) X) (take (length X - (k - 1)) X))"
  then have j: "j < length X - (k - 1)" by (simp add: array_sub_def)
  then have "k - 1 + j = j + k - 1" "j < length X + 1 - k" using assms by simp_all
  with j show "array_sub (drop (k - 1) X) (take (length X - (k - 1)) X) ! j = spans64 X k ! j"
    using assms by (simp add: array_sub_def spans64_def)
qed

lemma length_spans [simp]: "length (spans64 X k) = length X + 1 - k"
  by (simp add: spans64_def)

lemma assign_slice_band:
  assumes "i < r"
  shows "assign_slice (replicate (length e + r - 1) fill) i (length e + i) e
       = replicate i fill @ e @ replicate (r - 1 - i) fill"
proof -
  have "min (length e + r - 1) i = i" "length e + r - 1 - (length e + i) = r - 1 - i"
    using assms by simp_all
  then show ?thesis by (simp add: assign_slice_def)
qed

lemma band_nth:
  assumes "i < r" and "c < length e + r - 1"
  shows "(replicate i fill @ e @ replicate (r - 1 - i) fill) ! c
       = (if i \<le> c \<and> c < i + length e then e ! (c - i) else fill)"
  using assms by (auto simp: nth_append)

lemma band_column_min:
  assumes "e \<noteq> []" and "0 < r" and "c < length e + r - 1"
    and rows: "rows = map (\<lambda>i. replicate i (Max (set e)) @ e @ replicate (r - 1 - i) (Max (set e)))
                          [0..<r]"
  shows "column_min rows (length e + r - 1) ! c = coverage_min e r c"
proof -
  let ?fill = "Max (set e)"
  let ?J = "{j. j < length e \<and> j \<le> c \<and> c < j + r}"
  let ?cov = "(\<lambda>j. e ! j) ` ?J"
  let ?V = "(\<lambda>i. if i \<le> c \<and> c < i + length e then e ! (c - i) else ?fill) ` {0..<r}"
  have col: "set (map (\<lambda>row. row ! c) rows) = ?V"
  proof -
    have "map (\<lambda>row. row ! c) rows
        = map (\<lambda>i. if i \<le> c \<and> c < i + length e then e ! (c - i) else ?fill) [0..<r]"
      unfolding rows map_map comp_def
    proof (intro map_cong refl)
      fix i assume "i \<in> set [0..<r]"
      then have "i < r" by simp
      from band_nth [OF this assms(3)]
      show "(replicate i ?fill @ e @ replicate (r - 1 - i) ?fill) ! c
          = (if i \<le> c \<and> c < i + length e then e ! (c - i) else ?fill)" .
    qed
    then show ?thesis by simp
  qed
  have finJ: "finite ?J" by simp
  have "c + 1 - r \<in> ?J" using assms(1-3) by (cases e) auto
  then have ne: "?cov \<noteq> {}" by blast
  have sub: "?cov \<subseteq> ?V"
  proof
    fix v assume "v \<in> ?cov"
    then obtain j where j: "j < length e" "j \<le> c" "c < j + r" and v: "v = e ! j" by blast
    then have "c - j \<in> {0..<r}" "c - j \<le> c" "c < c - j + length e" "c - (c - j) = j"
      by auto
    then show "v \<in> ?V" using v by (intro image_eqI [where x = "c - j"]) simp_all
  qed
  have le_fill: "\<And>v. v \<in> ?cov \<Longrightarrow> v \<le> ?fill"
    by auto
  have inV: "\<And>v. v \<in> ?V \<Longrightarrow> v \<in> ?cov \<or> v = ?fill"
  proof -
    fix v assume "v \<in> ?V"
    then obtain i where i: "i < r" and v: "v = (if i \<le> c \<and> c < i + length e then e ! (c - i) else ?fill)"
      by auto
    show "v \<in> ?cov \<or> v = ?fill"
    proof (cases "i \<le> c \<and> c < i + length e")
      case True
      then have "c - i \<in> ?J" using i by auto
      then show ?thesis using v True by auto
    next
      case False
      then show ?thesis using v by auto
    qed
  qed
  have finV: "finite ?V" by simp
  have "{0..<r} \<noteq> {}" using assms(2) by simp
  then have neV: "?V \<noteq> {}" by (simp only: image_is_empty not_False_eq_True)
  have "Min ?V \<le> Min ?cov"
    using sub ne finV by (rule Min_antimono)
  moreover have "Min ?cov \<le> Min ?V"
  proof -
    have "Min ?V \<in> ?V" using finV neV by (rule Min_in)
    from inV [OF this] show ?thesis
    proof
      assume "Min ?V \<in> ?cov"
      then show ?thesis using finJ by (intro Min_le) simp_all
    next
      assume eq: "Min ?V = ?fill"
      have "Min ?cov \<in> ?cov" using finJ ne by (intro Min_in) simp_all
      from le_fill [OF this] eq show ?thesis by simp
    qed
  qed
  ultimately have "Min ?V = Min ?cov" by (rule antisym)
  then show ?thesis
    using assms(3) col by (simp add: column_min_def coverage_min_def)
qed

lemma core_distances_coverage:
  assumes "2 \<le> k" and "k \<le> length X"
  shows "core_distances X k = Inr (map (coverage_min (spans64 X k) k) [0..<length X])"
proof -
  let ?e = "spans64 X k"
  let ?n = "length X"
  let ?fill = "Max (set ?e)"
  have sub: "array_sub (drop (k - 1) X) (take (?n - (k - 1)) X) = ?e"
    using assms by (intro array_sub_spans) simp_all
  have len: "length ?e + k - 1 = ?n" using assms by simp
  have ne: "?e \<noteq> []" using assms by (simp add: spans64_def)
  let ?rows = "map (\<lambda>i. assign_slice (replicate ?n ?fill) i (?n - (k - 1 - i)) ?e) [0..<k]"
  have rows: "?rows = map (\<lambda>i. replicate i ?fill @ ?e @ replicate (k - 1 - i) ?fill) [0..<k]"
  proof (intro map_cong refl)
    fix i assume "i \<in> set [0..<k]"
    then have i: "i < k" by simp
    then have "?n - (k - 1 - i) = length ?e + i" using assms by simp
    with assign_slice_band [OF i, of ?e ?fill] len
    show "assign_slice (replicate ?n ?fill) i (?n - (k - 1 - i)) ?e
        = replicate i ?fill @ ?e @ replicate (k - 1 - i) ?fill"
      by simp
  qed
  have "column_min ?rows ?n = map (coverage_min ?e k) [0..<?n]"
  proof (rule nth_equalityI)
    show "length (column_min ?rows ?n) = length (map (coverage_min ?e k) [0..<?n])"
      by (simp add: column_min_def)
  next
    fix c assume "c < length (column_min ?rows ?n)"
    then have c: "c < length ?e + k - 1" using len by (simp add: column_min_def)
    have "column_min ?rows (length ?e + k - 1) ! c = coverage_min ?e k c"
      using ne _ c rows by (rule band_column_min) (use assms in simp)
    then show "column_min ?rows ?n ! c = map (coverage_min ?e k) [0..<?n] ! c"
      using c len by simp
  qed
  moreover have k1: "k > 1" using assms(1) by simp
  ultimately show ?thesis
    unfolding core_distances_def Let_def sub
    by (simp only: k1 not_True_eq_False if_False ne)
qed



section \<open>The fork epsilon\<close>

lemma mask_select_Cons:
  "mask_select (x # xs) (b # bs) = (if b then [x] else []) @ mask_select xs bs"
  by (simp add: mask_select_def)

lemma mask_select_Nil [simp]: "mask_select [] bs = []"
  by (simp add: mask_select_def)

lemma set_mask_select:
  "set (mask_select xs bs) = {xs ! i | i. i < length xs \<and> i < length bs \<and> bs ! i}"
  by (auto simp: mask_select_def set_zip image_iff) force

lemma remove_plateaus:
  "list_all is_int64 s \<Longrightarrow>
   mask_select s (True # map (\<lambda>g. g \<noteq> 0) (array_sub (tl s) (butlast s))) = remdups_adj s"
proof (induction s rule: remdups_adj.induct)
  case 1
  show ?case by simp
next
  case (2 x)
  show ?case by (simp add: mask_select_def array_sub_def)
next
  case (3 x y xs)
  let ?rest = "map (\<lambda>g. g \<noteq> 0) (array_sub (tl (y # xs)) (butlast (y # xs)))"
  from 3(3) have x: "is_int64 x" and y: "is_int64 y"
    and xxs: "list_all is_int64 (x # xs)" and yxs: "list_all is_int64 (y # xs)"
    by simp_all
  have ne: "(int64 (y - x) \<noteq> 0) = (y \<noteq> x)"
    using int64_diff_zero [OF y x] by simp
  have "map (\<lambda>g. g \<noteq> 0) (array_sub (tl (x # y # xs)) (butlast (x # y # xs)))
      = (int64 (y - x) \<noteq> 0) # ?rest"
    by (simp add: array_sub_def)
  then have split: "map (\<lambda>g. g \<noteq> 0) (array_sub (tl (x # y # xs)) (butlast (x # y # xs)))
             = (y \<noteq> x) # ?rest"
    unfolding ne .
  show ?case
  proof (cases "x = y")
    case True
    from 3(1) [OF True xxs] have ih: "mask_select (x # xs) (True # ?rest) = remdups_adj (x # xs)"
      using True by simp
    have "mask_select (x # y # xs) (True # (y \<noteq> x) # ?rest) = x # mask_select xs ?rest"
      using True by (simp add: mask_select_Cons)
    also have "\<dots> = mask_select (x # xs) (True # ?rest)"
      by (simp add: mask_select_Cons)
    finally show ?thesis using ih True split by simp
  next
    case False
    from 3(2) [OF False yxs] have ih: "mask_select (y # xs) (True # ?rest) = remdups_adj (y # xs)" .
    have "mask_select (x # y # xs) (True # (y \<noteq> x) # ?rest)
        = x # mask_select (y # xs) (True # ?rest)"
      using False by (simp add: mask_select_Cons)
    then show ?thesis using ih False split by simp
  qed
qed

lemma coverage_min_in:
  assumes "e \<noteq> []" and "0 < r" and "c < length e + r - 1"
  shows "coverage_min e r c \<in> set e"
proof -
  let ?J = "{j. j < length e \<and> j \<le> c \<and> c < j + r}"
  have "c + 1 - r \<in> ?J" using assms by (cases e) auto
  then have ne: "(\<lambda>j. e ! j) ` ?J \<noteq> {}" by blast
  have "finite ((\<lambda>j. e ! j) ` ?J)" by simp
  then have "Min ((\<lambda>j. e ! j) ` ?J) \<in> (\<lambda>j. e ! j) ` ?J" using ne by (rule Min_in)
  then obtain j where "j < length e" and "Min ((\<lambda>j. e ! j) ` ?J) = e ! j" by blast
  then show ?thesis unfolding coverage_min_def by simp
qed

lemma splits_int64:
  assumes "2 \<le> k" and "k < length X"
  shows "list_all is_int64 (map (coverage_min (spans64 X k) (k - 1)) [0..<length X - 1])"
proof -
  have ne: "spans64 X k \<noteq> []" using assms by (simp add: spans64_def)
  have r: "0 < k - 1" using assms by simp
  have "is_int64 (coverage_min (spans64 X k) (k - 1) c)" if "c < length X - 1" for c
  proof -
    from that assms have "c < length (spans64 X k) + (k - 1) - 1" by (simp add: spans64_def)
    with ne r have "coverage_min (spans64 X k) (k - 1) c \<in> set (spans64 X k)"
      by (rule coverage_min_in)
    then show ?thesis by (rule spans64_int64)
  qed
  then show ?thesis by (simp add: list_all_iff)
qed

lemma length_is_peak: "s \<noteq> [] \<Longrightarrow> length (is_peak s) = length s"
  by (cases s) (simp_all add: is_peak_def)

lemma is_peak_nth:
  assumes "i < length s"
  shows "is_peak s ! i
       = (0 < i \<and> i + 1 < length s \<and> s ! (i - 1) < s ! i \<and> s ! (i + 1) < s ! i)"
proof -
  let ?A = "False # map2 (\<lambda>a b. a > b) (tl s) (butlast s)"
  let ?B = "map2 (\<lambda>a b. a > b) (butlast s) (tl s) @ [False]"
  have lenA: "length ?A = length s" and lenB: "length ?B = length s"
    using assms by simp_all
  have A: "?A ! i = (0 < i \<and> s ! (i - 1) < s ! i)"
  proof (cases i)
    case 0
    then show ?thesis by simp
  next
    case (Suc j)
    with assms have j: "j < length (tl s)" "j < length (butlast s)" by simp_all
    then have "map2 (\<lambda>a b. a > b) (tl s) (butlast s) ! j = (tl s ! j > butlast s ! j)"
      by simp
    also have "\<dots> = (s ! Suc j > s ! j)"
      using j by (simp add: nth_tl nth_butlast)
    finally show ?thesis using Suc by simp
  qed
  have B: "?B ! i = (i + 1 < length s \<and> s ! (i + 1) < s ! i)"
  proof (cases "i + 1 < length s")
    case True
    then have j: "i < length (tl s)" "i < length (butlast s)" by simp_all
    then have "?B ! i = map2 (\<lambda>a b. a > b) (butlast s) (tl s) ! i"
      by (simp add: nth_append)
    also have "\<dots> = (butlast s ! i > tl s ! i)"
      using j by simp
    also have "\<dots> = (s ! i > s ! (i + 1))"
      using j by (simp add: nth_tl nth_butlast)
    finally show ?thesis using True by simp
  next
    case False
    with assms have "i = length (map2 (\<lambda>a b. a > b) (butlast s) (tl s))" by simp
    then have "?B ! i = False" by (metis nth_append_length)
    with False show ?thesis by simp
  qed
  have "i < length (zip ?A ?B)" using assms lenA lenB by simp
  then have "is_peak s ! i = (?A ! i \<and> ?B ! i)"
    unfolding is_peak_def by (simp only: nth_map nth_zip lenA lenB assms split_conv)
  with A B show ?thesis by blast
qed

lemma peaks_selected: "set (mask_select s (is_peak s)) = strict_peaks s"
proof (cases "s = []")
  case True
  then show ?thesis by (simp add: strict_peaks_def)
next
  case False
  note len = length_is_peak [OF False]
  show ?thesis
  proof (intro set_eqI iffI)
    fix v assume "v \<in> set (mask_select s (is_peak s))"
    then obtain i where i: "i < length s" "is_peak s ! i" and v: "v = s ! i"
      unfolding set_mask_select by blast
    from i(2) is_peak_nth [OF i(1)]
    have "0 < i \<and> i + 1 < length s \<and> s ! (i - 1) < s ! i \<and> s ! (i + 1) < s ! i" by blast
    with v show "v \<in> strict_peaks s" unfolding strict_peaks_def by blast
  next
    fix v assume "v \<in> strict_peaks s"
    then obtain i where i: "0 < i" "i + 1 < length s" "s ! (i - 1) < s ! i" "s ! (i + 1) < s ! i"
      and v: "v = s ! i"
      unfolding strict_peaks_def by blast
    from i(2) have il: "i < length s" by simp
    with i is_peak_nth [OF il] have "is_peak s ! i" by blast
    with il len v show "v \<in> set (mask_select s (is_peak s))"
      unfolding set_mask_select by auto
  qed
qed

lemma fork_epsilon_splits:
  assumes "2 \<le> k" and "k < length X"
  shows "column_min
           (map (\<lambda>i. assign_slice
                        (replicate (length (spans64 X k) + (k - 1) - 1) (Max (set (spans64 X k))))
                        i (length (spans64 X k) + i) (spans64 X k))
                [0..<k - 1])
           (length (spans64 X k) + (k - 1) - 1)
       = map (coverage_min (spans64 X k) (k - 1)) [0..<length X - 1]"
proof -
  let ?e = "spans64 X k" and ?r = "k - 1"
  let ?fill = "Max (set ?e)"
  let ?w = "length ?e + ?r - 1"
  let ?rows = "map (\<lambda>i. assign_slice (replicate ?w ?fill) i (length ?e + i) ?e) [0..<?r]"
  have w: "?w = length X - 1" using assms by simp
  have ne: "?e \<noteq> []" using assms by (simp add: spans64_def)
  have r: "0 < ?r" using assms by simp
  have rows: "?rows = map (\<lambda>i. replicate i ?fill @ ?e @ replicate (?r - 1 - i) ?fill) [0..<?r]"
  proof (intro map_cong refl)
    fix i assume "i \<in> set [0..<?r]"
    then have "i < ?r" by simp
    then show "assign_slice (replicate ?w ?fill) i (length ?e + i) ?e
             = replicate i ?fill @ ?e @ replicate (?r - 1 - i) ?fill"
      by (rule assign_slice_band)
  qed
  have "column_min ?rows ?w = map (coverage_min ?e ?r) [0..<?w]"
  proof (rule nth_equalityI)
    show "length (column_min ?rows ?w) = length (map (coverage_min ?e ?r) [0..<?w])"
      by (simp add: column_min_def)
  next
    fix c assume "c < length (column_min ?rows ?w)"
    then have c: "c < ?w" by (simp add: column_min_def)
    have "column_min ?rows ?w ! c = coverage_min ?e ?r c"
      using ne r c rows by (rule band_column_min)
    then show "column_min ?rows ?w ! c = map (coverage_min ?e ?r) [0..<?w] ! c"
      using c by simp
  qed
  then show ?thesis unfolding w .
qed

lemma fork_epsilon_short: "length X \<le> k \<Longrightarrow> fork_epsilon X k = Inr None"
  by (simp add: fork_epsilon_def)

lemma fork_epsilon_long:
  assumes "2 \<le> k" and n: "k < length X"
  shows "fork_epsilon X k =
           Inr (if strict_peaks (fork_candidates64 X k) = {} then None
                else Some (Max (strict_peaks (fork_candidates64 X k))))"
proof -
  have False: "\<not> length X \<le> k" using n by simp
  have k2: "\<not> k < 2" using assms by simp
  have sub: "array_sub (drop (k - 1) X) (take (length X - (k - 1)) X) = spans64 X k"
    using assms n by (intro array_sub_spans) simp_all
  let ?s = "map (coverage_min (spans64 X k) (k - 1)) [0..<length X - 1]"
  let ?s1 = "mask_select ?s (True # map (\<lambda>g. g \<noteq> 0) (array_sub (tl ?s) (butlast ?s)))"
  let ?s2 = "mask_select ?s1 (is_peak ?s1)"
  have s1: "?s1 = fork_candidates64 X k"
    by (simp only: remove_plateaus [OF splits_int64 [OF assms]] fork_candidates64_def)
  have s2: "set ?s2 = strict_peaks (fork_candidates64 X k)"
    by (simp only: peaks_selected s1)
  have "fork_epsilon X k = (if length ?s2 = 0 then Inr None else Inr (Some (Max (set ?s2))))"
    unfolding fork_epsilon_def Let_def sub fork_epsilon_splits [OF assms]
      is_peak_def [symmetric]
    by (simp only: False k2 if_False)
  also have "\<dots> = Inr (if strict_peaks (fork_candidates64 X k) = {} then None
                       else Some (Max (strict_peaks (fork_candidates64 X k))))"
    unfolding s2 [symmetric] by simp
  finally show ?thesis .
qed

text \<open>
  Claim C2, as the code has it. For every array \<open>X\<close> of 64-bit integers sorted ascending
  and every \<open>k\<close> of at least 2, \<open>_fork_epsilon\<close> returns the maximum surviving strict local
  peak itself, not decremented (the peaks are taken from the coverage-minimum array over
  windows of size \<open>k - 1\<close> on the span array, after deleting plateau runs), and returns
  "no fork" when no peak survives or when the array has at most \<open>k\<close> entries. The
  decrement by 1 is done by the callers, where they cluster again. The spans are the ones
  the array computes, in 64 bits (\<open>fork_candidates64\<close>); they are the mathematical spans
  (\<open>fork_candidates\<close>) whenever no difference of two elements of \<open>X\<close> leaves the 64-bit
  range.
\<close>

theorem fork_epsilon_maximum_peak:
  assumes "int64_array X" and "sorted X" and "2 \<le> k"
  shows "fork_epsilon X k =
           Inr (if length X \<le> k \<or> strict_peaks (fork_candidates64 X k) = {} then None
                else Some (Max (strict_peaks (fork_candidates64 X k))))
       \<and> (no_overflow X \<longrightarrow>
            fork_epsilon X k =
              Inr (if length X \<le> k \<or> strict_peaks (fork_candidates X k) = {} then None
                   else Some (Max (strict_peaks (fork_candidates X k)))))"
proof -
  have wrapped: "fork_epsilon X k =
           Inr (if length X \<le> k \<or> strict_peaks (fork_candidates64 X k) = {} then None
                else Some (Max (strict_peaks (fork_candidates64 X k))))"
  proof (cases "length X \<le> k")
    case True
    with fork_epsilon_short [OF True] show ?thesis by simp
  next
    case False
    then have "k < length X" by simp
    from fork_epsilon_long [OF assms(3) this] False show ?thesis by simp
  qed
  have "fork_candidates64 X k = fork_candidates X k" if "no_overflow X"
    using that assms(3) by (intro fork_candidates64_exact) simp_all
  with wrapped show ?thesis by simp
qed

theorem fork_epsilon_maximum_peak_witness:
  "int64_array [0, 1, 2, 3, 20, 21, 22, 23] \<and> sorted [0, 1, 2, 3, 20, 21, 22, 23 :: int]
   \<and> (2::nat) \<le> 3 \<and> no_overflow [0, 1, 2, 3, 20, 21, 22, 23]
   \<and> fork_epsilon [0, 1, 2, 3, 20, 21, 22, 23] 3 = Inr (Some 18)
   \<and> Max (strict_peaks (fork_candidates64 [0, 1, 2, 3, 20, 21, 22, 23] 3)) = 18
   \<and> Max (strict_peaks (fork_candidates [0, 1, 2, 3, 20, 21, 22, 23] 3)) = 18"
proof -
  have a: "int64_array [0, 1, 2, 3, 20, 21, 22, 23]"
    by (simp add: int64_array_def is_int64_def two63_def)
  have s: "sorted [0, 1, 2, 3, 20, 21, 22, 23 :: int]" by simp
  have k: "(2::nat) \<le> 3" by simp
  have n: "no_overflow [0, 1, 2, 3, 20, 21, 22, 23]"
    by (simp add: no_overflow_def is_int64_def two63_def)
  have v: "fork_epsilon [0, 1, 2, 3, 20, 21, 22, 23] 3 = Inr (Some 18)" by code_simp
  from fork_epsilon_maximum_peak [OF a s k] v n
  have "Max (strict_peaks (fork_candidates64 [0, 1, 2, 3, 20, 21, 22, 23] 3)) = 18"
    and "Max (strict_peaks (fork_candidates [0, 1, 2, 3, 20, 21, 22, 23] 3)) = 18"
    by (simp_all split: if_splits)
  with a s k n v show ?thesis by simp
qed

text \<open>
  The claim as stated has the decrement inside the primitive. On the array
  0, 1, 2, 3, 20, 21, 22, 23 with \<open>k = 3\<close> the only surviving peak is 18, and the code
  returns 18, not 17.
\<close>

theorem fork_epsilon_decrement_counterexample:
  "fork_epsilon [0, 1, 2, 3, 20, 21, 22, 23] 3
     \<noteq> Inr (Some (Max (strict_peaks (fork_candidates [0, 1, 2, 3, 20, 21, 22, 23] 3)) - 1))"
proof -
  have v: "fork_epsilon [0, 1, 2, 3, 20, 21, 22, 23] 3 = Inr (Some 18)" by code_simp
  have n: "no_overflow [0, 1, 2, 3, 20, 21, 22, 23]"
    by (simp add: no_overflow_def is_int64_def two63_def)
  have "fork_candidates64 [0, 1, 2, 3, 20, 21, 22, 23] 3
      = fork_candidates [0, 1, 2, 3, 20, 21, 22, 23] 3"
    using n by (rule fork_candidates64_exact) simp
  with fork_epsilon_long [of 3 "[0, 1, 2, 3, 20, 21, 22, 23]"] v
  have "Max (strict_peaks (fork_candidates [0, 1, 2, 3, 20, 21, 22, 23] 3)) = 18"
    by (simp split: if_splits)
  with v show ?thesis by simp
qed

section \<open>The flat clusterer\<close>

lemma steps_nth:
  "array_sub (tl X) (butlast X) = map (\<lambda>i. int64 (X ! (i + 1) - X ! i)) [0..<length X - 1]"
proof (rule nth_equalityI)
  show "length (array_sub (tl X) (butlast X))
      = length (map (\<lambda>i. int64 (X ! (i + 1) - X ! i)) [0..<length X - 1])"
    by (simp add: array_sub_def)
next
  fix i assume "i < length (array_sub (tl X) (butlast X))"
  then have i: "i < length X - 1" by (simp add: array_sub_def)
  then show "array_sub (tl X) (butlast X) ! i
           = map (\<lambda>i. int64 (X ! (i + 1) - X ! i)) [0..<length X - 1] ! i"
    by (simp add: array_sub_def nth_tl nth_butlast)
qed

lemma sorted_ascending_steps:
  "sorted_ascending X = (\<forall>i. i + 1 < length X \<longrightarrow> 0 \<le> int64 (X ! (i + 1) - X ! i))"
proof -
  have "sorted_ascending X = (\<forall>i < length X - 1. \<not> int64 (X ! (i + 1) - X ! i) < 0)"
    unfolding sorted_ascending_def steps_nth by (auto simp: filter_empty_conv)
  then show ?thesis by (auto simp: less_diff_conv not_less)
qed

lemma sorted_ascending_iff:
  assumes "no_overflow X"
  shows "sorted_ascending X = sorted X"
proof -
  have "int64 (X ! (i + 1) - X ! i) = X ! (i + 1) - X ! i" if "i + 1 < length X" for i
  proof -
    from that have "X ! (i + 1) \<in> set X" "X ! i \<in> set X" by simp_all
    then show ?thesis by (rule no_overflow_diff [OF assms])
  qed
  then have "sorted_ascending X = (\<forall>i. i + 1 < length X \<longrightarrow> X ! i \<le> X ! (i + 1))"
    unfolding sorted_ascending_steps by auto
  then show ?thesis by (simp add: sorted_iff_nth_Suc)
qed

lemma mask_select_filter:
  "length bs = length xs \<Longrightarrow>
   mask_select xs bs = map (\<lambda>i. xs ! i) (filter (\<lambda>i. bs ! i) [0..<length xs])"
proof (induction xs arbitrary: bs)
  case Nil
  show ?case by simp
next
  case (Cons x xs)
  then obtain b bs' where bs: "bs = b # bs'" and len: "length bs' = length xs"
    by (cases bs) auto
  have upt: "[0..<length (x # xs)] = 0 # map Suc [0..<length xs]"
    by (simp add: upt_conv_Cons map_Suc_upt del: upt_Suc)
  have flt: "filter (\<lambda>i. (c # bs') ! i) (map Suc [0..<length xs])
      = map Suc (filter (\<lambda>i. bs' ! i) [0..<length xs])" for c
    by (simp add: filter_map comp_def)
  have "map (\<lambda>i. (x # xs) ! i) (filter (\<lambda>i. (b # bs') ! i) [0..<length (x # xs)])
      = (if b then [x] else []) @ map (\<lambda>i. xs ! i) (filter (\<lambda>i. bs' ! i) [0..<length xs])"
    unfolding upt by (simp add: flt comp_def)
  with Cons.IH [OF len] show ?case
    by (simp only: bs mask_select_Cons)
qed

lemma subcluster_windows:
  assumes "sorted_ascending X" and "2 \<le> k"
  shows "subcluster X k eps = Inr (map (\<lambda>j. (j, j + k)) (dense_starts X k eps))"
proof -
  let ?n = "length X" and ?o = "k - 1"
  let ?m = "?n + 1 - k"
  let ?sub = "array_sub (drop ?o X) (take (?n - ?o) X)"
  let ?sel = "map (\<lambda>d. d \<le> eps) ?sub"
  have m: "?n - ?o = ?m" using assms(2) by simp
  have lsub: "length ?sub = ?m" using assms(2) by (simp add: array_sub_def)
  have sub_nth: "?sub ! j = spans64 X k ! j" if "j < ?m" for j
  proof (cases "k \<le> ?n")
    case True
    then show ?thesis using assms(2) array_sub_spans [of k X] by simp
  next
    case False
    with that show ?thesis by simp
  qed
  have sel: "filter (\<lambda>i. ?sel ! i) [0..<?m] = dense_starts X k eps"
    unfolding dense_starts_def
  proof (intro filter_cong refl)
    fix j assume "j \<in> set [0..<?m]"
    then have j: "j < ?m" by simp
    with lsub sub_nth [OF j] show "?sel ! j = (spans64 X k ! j \<le> eps)" by simp
  qed
  have lower: "mask_select [0..<length (take (?n - ?o) X)] ?sel = dense_starts X k eps"
  proof -
    have l: "length (take (?n - ?o) X) = ?m" using assms(2) by simp
    have "mask_select [0..<?m] ?sel = map (\<lambda>i. [0..<?m] ! i) (filter (\<lambda>i. ?sel ! i) [0..<?m])"
      using lsub mask_select_filter [of ?sel "[0..<?m]"] by simp
    also have "\<dots> = map (\<lambda>i. i) (filter (\<lambda>i. ?sel ! i) [0..<?m])"
      by (intro map_cong refl) simp
    finally show ?thesis using sel l by simp
  qed
  have upper: "map (\<lambda>i. i + 1) (mask_select [?o..<?n] ?sel)
             = map (\<lambda>j. j + k) (dense_starts X k eps)"
  proof -
    have l: "length [?o..<?n] = ?m" using assms(2) by simp
    have "mask_select [?o..<?n] ?sel
        = map (\<lambda>i. [?o..<?n] ! i) (filter (\<lambda>i. ?sel ! i) [0..<?m])"
      using lsub l mask_select_filter [of ?sel "[?o..<?n]"] by simp
    also have "\<dots> = map (\<lambda>i. ?o + i) (filter (\<lambda>i. ?sel ! i) [0..<?m])"
      using assms(2) by (intro map_cong refl) auto
    finally have "map (\<lambda>i. i + 1) (mask_select [?o..<?n] ?sel)
                = map (\<lambda>i. ?o + i + 1) (dense_starts X k eps)"
      using sel by (simp add: comp_def)
    also have "\<dots> = map (\<lambda>j. j + k) (dense_starts X k eps)"
      using assms(2) by (intro map_cong refl) simp
    finally show ?thesis .
  qed
  have k2: "\<not> k < 2" using assms(2) by simp
  note srt = assms(1)
  have "subcluster X k eps
      = Inr (zip (dense_starts X k eps) (map (\<lambda>j. j + k) (dense_starts X k eps)))"
    unfolding subcluster_def Let_def lower upper
    by (simp only: srt k2 not_True_eq_False if_False)
  then show ?thesis by (simp add: zip_map2 zip_same_conv_map)
qed

lemma sorted_dense_starts: "sorted (dense_starts X k eps)"
  by (simp add: dense_starts_def sorted_wrt_filter)

lemma dense_starts_bound: "j \<in> set (dense_starts X k eps) \<Longrightarrow> j + k \<le> length X + 1 - k + k \<and> j < length X + 1 - k"
  by (simp add: dense_starts_def)

lemma merge_overlapping_fst:
  "fst ` set (merge_overlapping cur rest) \<subseteq> insert (fst cur) (fst ` set rest)"
proof (induction rest arbitrary: cur)
  case Nil
  show ?case by simp
next
  case (Cons nxt rest)
  show ?case
  proof (cases "fst nxt < snd cur")
    case True
    with Cons.IH [of "(fst cur, snd nxt)"] show ?thesis by auto
  next
    case False
    with Cons.IH [of nxt] show ?thesis by auto
  qed
qed

lemma merge_overlapping_snd:
  "snd ` set (merge_overlapping cur rest) \<subseteq> insert (snd cur) (snd ` set rest)"
proof (induction rest arbitrary: cur)
  case Nil
  show ?case by simp
next
  case (Cons nxt rest)
  show ?case
  proof (cases "fst nxt < snd cur")
    case True
    with Cons.IH [of "(fst cur, snd nxt)"] show ?thesis by auto
  next
    case False
    with Cons.IH [of nxt] show ?thesis by auto
  qed
qed

lemma merge_overlapping_ascending:
  "sorted (map fst rest) \<Longrightarrow> ascending_disjoint (merge_overlapping cur rest)"
proof (induction rest arbitrary: cur)
  case Nil
  show ?case by (simp add: ascending_disjoint_def)
next
  case (Cons nxt rest)
  from Cons.prems have srt: "sorted (map fst rest)" and low: "\<forall>s \<in> set rest. fst nxt \<le> fst s"
    by auto
  show ?case
  proof (cases "fst nxt < snd cur")
    case True
    with Cons.IH [OF srt] show ?thesis by simp
  next
    case False
    have "\<forall>s \<in> set (merge_overlapping nxt rest). snd cur \<le> fst s"
    proof
      fix s assume "s \<in> set (merge_overlapping nxt rest)"
      then have "fst s \<in> insert (fst nxt) (fst ` set rest)"
        using merge_overlapping_fst [of nxt rest] by blast
      with low have "fst nxt \<le> fst s" by auto
      with False show "snd cur \<le> fst s" by simp
    qed
    with Cons.IH [OF srt, of nxt] False show ?thesis
      by (simp add: ascending_disjoint_def)
  qed
qed

lemma merge_overlapping_proper:
  assumes "fst cur < snd cur" and "\<forall>s \<in> set rest. fst s < snd s \<and> snd cur \<le> snd s"
    and "sorted (map snd rest)"
  shows "\<forall>s \<in> set (merge_overlapping cur rest). fst s < snd s"
  using assms
proof (induction rest arbitrary: cur)
  case Nil
  then show ?case by simp
next
  case (Cons nxt rest)
  from Cons.prems have srt: "sorted (map snd rest)"
    and nxt: "fst nxt < snd nxt" "snd cur \<le> snd nxt"
    and rest: "\<forall>s \<in> set rest. fst s < snd s \<and> snd nxt \<le> snd s"
    by auto
  show ?case
  proof (cases "fst nxt < snd cur")
    case True
    have "fst (fst cur, snd nxt) < snd (fst cur, snd nxt)"
      using Cons.prems(1) nxt(2) by simp
    moreover have "\<forall>s \<in> set rest. fst s < snd s \<and> snd (fst cur, snd nxt) \<le> snd s"
      using rest by simp
    ultimately have "\<forall>s \<in> set (merge_overlapping (fst cur, snd nxt) rest). fst s < snd s"
      using srt by (rule Cons.IH)
    with True show ?thesis by simp
  next
    case False
    from Cons.IH [OF nxt(1) rest srt] Cons.prems(1) False show ?thesis by simp
  qed
qed

lemma merge_overlapping_chained:
  assumes "2 \<le> k" and "chained J k cur" and "snd cur \<le> fst cur + k \<or> fst cur < snd cur"
    and "\<forall>s \<in> set rest. fst s \<in> J \<and> snd s = fst s + k"
  shows "\<forall>s \<in> set (merge_overlapping cur rest). chained J k s"
  using assms(2,4)
proof (induction rest arbitrary: cur)
  case Nil
  then show ?case by simp
next
  case (Cons nxt rest)
  from Cons.prems have nxt: "fst nxt \<in> J" "snd nxt = fst nxt + k"
    and rest: "\<forall>s \<in> set rest. fst s \<in> J \<and> snd s = fst s + k"
    by auto
  show ?case
  proof (cases "fst nxt < snd cur")
    case True
    have "chained J k (fst cur, snd nxt)"
      unfolding chained_def
    proof (intro allI impI)
      fix c assume c: "fst (fst cur, snd nxt) \<le> c \<and> c + 2 \<le> snd (fst cur, snd nxt)"
      show "\<exists>j \<in> J. j \<le> c \<and> c \<le> j + (k - 2)"
      proof (cases "c + 2 \<le> snd cur")
        case True
        with c Cons.prems(1) show ?thesis by (simp add: chained_def)
      next
        case False
        with \<open>fst nxt < snd cur\<close> have "fst nxt \<le> c" by simp
        moreover from c nxt(2) have "c + 2 \<le> fst nxt + k" by simp
        with assms(1) have "c \<le> fst nxt + (k - 2)" by arith
        ultimately show ?thesis using nxt(1) by blast
      qed
    qed
    from Cons.IH [OF this rest] True show ?thesis by simp
  next
    case False
    have "chained J k nxt"
      unfolding chained_def
    proof (intro allI impI)
      fix c assume "fst nxt \<le> c \<and> c + 2 \<le> snd nxt"
      with nxt assms(1) have "fst nxt \<le> c \<and> c \<le> fst nxt + (k - 2)" by arith
      with nxt(1) show "\<exists>j \<in> J. j \<le> c \<and> c \<le> j + (k - 2)" by blast
    qed
    from Cons.IH [OF this rest] Cons.prems(1) False show ?thesis by simp
  qed
qed

lemma window_chained: "2 \<le> k \<Longrightarrow> j \<in> J \<Longrightarrow> chained J k (j, j + k)"
  unfolding chained_def by auto

lemma cluster_windows:
  assumes "sorted_ascending X" and "2 \<le> k"
  shows "cluster X k eps =
           Inr (case map (\<lambda>j. (j, j + k)) (dense_starts X k eps) of
                  [] \<Rightarrow> []
                | cur # rest \<Rightarrow> merge_overlapping cur rest)"
proof -
  let ?W = "map (\<lambda>j. (j, j + k)) (dense_starts X k eps)"
  have f: "sorted (map fst ?W)"
    using sorted_dense_starts [of X k eps] by (simp add: comp_def)
  have "sorted (map (\<lambda>j. j + k) (dense_starts X k eps))"
    using sorted_dense_starts [of X k eps] by (simp add: sorted_map sorted_wrt_iff_nth_less)
  then have s: "sorted (map snd ?W)" by (simp add: comp_def)
  have z: "zip (sort (map fst ?W)) (sort (map snd ?W)) = ?W"
    using f s by (simp only: sorted_sort_id zip_map_fst_snd)
  show ?thesis
  proof (cases "length ?W > 1")
    case True
    then have ne: "?W \<noteq> []" by auto
    then have "(case ?W of [] \<Rightarrow> [] | cur # rest \<Rightarrow> merge_overlapping cur rest)
             = merge_overlapping (hd ?W) (tl ?W)"
      by (cases ?W) simp_all
    moreover have "melt_slices ?W = Inr (merge_overlapping (hd ?W) (tl ?W))"
      using melt_slices_nonempty [OF ne] by (simp only: z)
    ultimately show ?thesis
      unfolding cluster_def subcluster_windows [OF assms] sum_bind_Inr
      using True by (simp only: if_True)
  next
    case False
    then have "?W = [] \<or> (\<exists>w. ?W = [w])"
      by (cases ?W) (auto simp: Suc_le_eq)
    then have "(case ?W of [] \<Rightarrow> [] | cur # rest \<Rightarrow> merge_overlapping cur rest) = ?W"
      by auto
    with False show ?thesis
      unfolding cluster_def subcluster_windows [OF assms] sum_bind_Inr by simp
  qed
qed

lemma cluster_sorted_ascending:
  assumes "cluster X k eps = Inr found"
  shows "sorted_ascending X"
proof (rule ccontr)
  assume "\<not> sorted_ascending X"
  then have "cluster X k eps = Inl AssertionError"
    by (simp add: cluster_def subcluster_def)
  with assms show False by simp
qed

lemma cluster_found:
  assumes "2 \<le> k" and "cluster X k eps = Inr found"
  shows "ascending_disjoint found"
    and "\<forall>s \<in> set found. fst s < snd s \<and> snd s \<le> length X"
    and "\<forall>s \<in> set found. chained (set (dense_starts X k eps)) k s"
proof -
  let ?J = "dense_starts X k eps"
  let ?W = "map (\<lambda>j. (j, j + k)) ?J"
  note srt = cluster_sorted_ascending [OF assms(2)]
  have found: "found = (case ?W of [] \<Rightarrow> [] | cur # rest \<Rightarrow> merge_overlapping cur rest)"
    using cluster_windows [OF srt assms(1), of eps] assms(2) by simp
  have W: "\<forall>s \<in> set ?W. fst s \<in> set ?J \<and> snd s = fst s + k \<and> fst s < snd s
                       \<and> snd s \<le> length X"
    using assms(1) by (auto simp: dense_starts_def)
  have f: "sorted (map fst ?W)"
    using sorted_dense_starts [of X k eps] by (simp add: comp_def)
  have "sorted (map (\<lambda>j. j + k) ?J)"
    using sorted_dense_starts [of X k eps] by (simp add: sorted_map sorted_wrt_iff_nth_less)
  then have s: "sorted (map snd ?W)" by (simp add: comp_def)
  show "ascending_disjoint found"
  proof (cases ?W)
    case Nil
    with found show ?thesis by (simp add: ascending_disjoint_def)
  next
    case (Cons cur rest)
    with f have "sorted (map fst rest)" by simp
    from merge_overlapping_ascending [OF this] found Cons show ?thesis by simp
  qed
  show "\<forall>s \<in> set found. fst s < snd s \<and> snd s \<le> length X"
  proof (cases ?W)
    case Nil
    with found show ?thesis by simp
  next
    case (Cons cur rest)
    with W have cur: "fst cur < snd cur" "snd cur \<le> length X"
      and rest: "\<forall>s \<in> set rest. fst s < snd s \<and> snd s \<le> length X"
      by (metis list.set_intros(1), metis list.set_intros(1), metis list.set_intros(2))
    from s Cons have ss: "sorted (map snd rest)" "\<forall>s \<in> set rest. snd cur \<le> snd s" by auto
    have "\<forall>s \<in> set (merge_overlapping cur rest). fst s < snd s"
      using cur(1) rest ss by (intro merge_overlapping_proper) auto
    moreover have "\<forall>s \<in> set (merge_overlapping cur rest). snd s \<le> length X"
    proof
      fix s assume "s \<in> set (merge_overlapping cur rest)"
      then have "snd s \<in> insert (snd cur) (snd ` set rest)"
        using merge_overlapping_snd [of cur rest] by blast
      with cur(2) rest show "snd s \<le> length X" by auto
    qed
    ultimately show ?thesis using found Cons by simp
  qed
  show "\<forall>s \<in> set found. chained (set ?J) k s"
  proof (cases ?W)
    case Nil
    with found show ?thesis by simp
  next
    case (Cons cur rest)
    with W have cur: "fst cur \<in> set ?J" "snd cur = fst cur + k"
      and rest: "\<forall>s \<in> set rest. fst s \<in> set ?J \<and> snd s = fst s + k"
      by (metis list.set_intros(1), metis list.set_intros(1), metis list.set_intros(2))
    have "chained (set ?J) k cur"
      using window_chained [OF assms(1) cur(1)] cur(2) by (cases cur) simp
    from merge_overlapping_chained [OF assms(1) this _ rest] cur(2) found Cons
    show ?thesis by simp
  qed
qed

section \<open>The hierarchical clusterer returns\<close>

lemma strict_peaks_subset: "strict_peaks s \<subseteq> set s"
  unfolding strict_peaks_def by auto

lemma fork_value_is_coverage:
  assumes "2 \<le> k" and "fork_epsilon X k = Inr (Some fe)"
  shows "k < length X" and "\<exists>c < length X - 1. fe = coverage_min (spans64 X k) (k - 1) c"
    and "int64 (fe - 1) = fe - 1"
proof -
  let ?P = "strict_peaks (fork_candidates64 X k)"
  let ?s = "map (coverage_min (spans64 X k) (k - 1)) [0..<length X - 1]"
  from assms(2) fork_epsilon_short [of X k] have n: "\<not> length X \<le> k" by auto
  then show n': "k < length X" by simp
  from assms(2) fork_epsilon_long [OF assms(1) n']
  have P: "?P \<noteq> {}" and fe: "fe = Max ?P"
    by (auto split: if_splits)
  have "finite ?P" using strict_peaks_subset [of "fork_candidates64 X k"]
    by (rule finite_subset) simp
  then have "Max ?P \<in> ?P" using P by (rule Max_in)
  then have peak: "fe \<in> ?P" using fe by simp
  then have "fe \<in> set (fork_candidates64 X k)"
    using strict_peaks_subset by blast
  then have mem: "fe \<in> set ?s"
    by (simp add: fork_candidates64_def)
  then show "\<exists>c < length X - 1. fe = coverage_min (spans64 X k) (k - 1) c"
    by auto
  have all: "\<forall>v \<in> set ?s. is_int64 v"
    using splits_int64 [OF assms(1) n'] by (simp only: list_all_iff)
  from peak obtain i where i: "0 < i" "i + 1 < length (fork_candidates64 X k)"
    and below: "fork_candidates64 X k ! (i - 1) < fe"
    unfolding strict_peaks_def by blast
  from i have "fork_candidates64 X k ! (i - 1) \<in> set (fork_candidates64 X k)"
    by (intro nth_mem) simp
  then have "fork_candidates64 X k ! (i - 1) \<in> set ?s"
    by (simp add: fork_candidates64_def)
  with all have "is_int64 (fork_candidates64 X k ! (i - 1))" by blast
  moreover from all mem have "is_int64 fe" by blast
  ultimately have "is_int64 (fe - 1)" using below by (simp add: is_int64_def)
  then show "int64 (fe - 1) = fe - 1" by (rule int64_id)
qed

lemma coverage_min_le:
  assumes "j < length e" and "j \<le> c" and "c < j + r"
  shows "coverage_min e r c \<le> e ! j"
proof -
  have "finite {j. j < length e \<and> j \<le> c \<and> c < j + r}" by simp
  then have "finite ((\<lambda>j. e ! j) ` {j. j < length e \<and> j \<le> c \<and> c < j + r})"
    by (rule finite_imageI)
  moreover have "e ! j \<in> (\<lambda>j. e ! j) ` {j. j < length e \<and> j \<le> c \<and> c < j + r}"
    using assms by blast
  ultimately show ?thesis unfolding coverage_min_def by (rule Min_le)
qed

lemma children_shorter:
  assumes "2 \<le> k" and "fork_epsilon X k = Inr (Some fe)"
    and "cluster X k (int64 (fe - 1)) = Inr found" and "s \<in> set found"
  shows "snd s - fst s < length X"
proof (rule ccontr)
  assume "\<not> snd s - fst s < length X"
  moreover from cluster_found(2) [OF assms(1,3)] assms(4)
  have "fst s < snd s" "snd s \<le> length X" by simp_all
  ultimately have s: "fst s = 0" "snd s = length X" by simp_all
  from fork_value_is_coverage [OF assms(1,2)] obtain c
    where n: "k < length X" and c: "c < length X - 1"
      and fe: "fe = coverage_min (spans64 X k) (k - 1) c"
      and dec: "int64 (fe - 1) = fe - 1"
    by blast
  from cluster_found(3) [OF assms(1,3)] assms(4)
  have "chained (set (dense_starts X k (fe - 1))) k s" by (simp add: dec)
  with s c obtain j where j: "j \<in> set (dense_starts X k (fe - 1))" "j \<le> c" "c \<le> j + (k - 2)"
    unfolding chained_def by (metis Suc_1 Suc_eq_plus1 add_Suc_right le0 less_diff_conv
        less_eq_Suc_le)
  from j(1) have dense: "j < length (spans64 X k)" "spans64 X k ! j \<le> fe - 1"
    by (simp_all add: dense_starts_def)
  from j(3) assms(1) have "c < j + (k - 1)" by simp
  from coverage_min_le [OF dense(1) j(2) this] fe dense(2) show False by simp
qed

lemma collect_children_total:
  "\<forall>r \<in> set rs. r \<noteq> None \<Longrightarrow> collect_children rs \<noteq> None"
  by (induction rs) (auto split: option.splits sum.splits)

lemma traverse_cluster_tree_total:
  assumes "2 \<le> min_points self"
  shows "length pts < depth \<Longrightarrow> traverse_cluster_tree depth self pts e \<noteq> None"
proof (induction depth arbitrary: pts e)
  case 0
  then show ?case by simp
next
  case (Suc depth)
  let ?X = "map p_value pts" and ?k = "min_points self"
  show ?case
  proof (cases "fork_epsilon ?X ?k")
    case (Inl err)
    then show ?thesis by simp
  next
    case (Inr fork)
    show ?thesis
    proof (cases fork)
      case None
      with Inr show ?thesis by simp
    next
      case (Some fe)
      note fork = Inr [unfolded Some]
      show ?thesis
      proof (cases "parent_support self pts e fe")
        case (Inl err)
        with fork show ?thesis by simp
      next
        case sup: (Inr support)
        show ?thesis
        proof (cases "support \<ge> array_sum (map (\<lambda>p. max 0 (int64 (fe - core_dist p))) pts)")
          case True
          with fork sup show ?thesis by simp
        next
          case False
          show ?thesis
          proof (cases "cluster ?X ?k (int64 (fe - 1))")
            case (Inl err)
            with fork sup False show ?thesis by simp
          next
            case (Inr found)
            let ?children = "map (\<lambda>(left, right). take (right - left) (drop left pts)) found"
            have "\<forall>r \<in> set (map (\<lambda>points. traverse_cluster_tree depth self points fe) ?children).
                    r \<noteq> None"
            proof
              fix r
              assume "r \<in> set (map (\<lambda>points. traverse_cluster_tree depth self points fe)
                                  ?children)"
              then obtain s where s: "s \<in> set found"
                and r: "r = traverse_cluster_tree depth self
                              (take (snd s - fst s) (drop (fst s) pts)) fe"
                by (auto simp: case_prod_beta)
              from children_shorter [OF assms fork Inr s]
              have "snd s - fst s < length pts" by simp
              then have "length (take (snd s - fst s) (drop (fst s) pts)) < depth"
                using Suc.prems(1) by simp
              with Suc.IH r show "r \<noteq> None" by simp
            qed
            then have "collect_children
                         (map (\<lambda>points. traverse_cluster_tree depth self points fe) ?children)
                       \<noteq> None"
              by (rule collect_children_total)
            with fork sup False Inr show ?thesis by simp
          qed
        qed
      qed
    qed
  qed
qed

section \<open>What the hierarchical clusterer emits\<close>

lemma collect_children_Inr:
  "collect_children rs = Some (Inr ts) \<Longrightarrow> list_all2 (\<lambda>r t. r = Some (Inr t)) rs ts"
proof (induction rs arbitrary: ts)
  case Nil
  then show ?case by simp
next
  case (Cons r rs)
  from Cons.prems obtain t ts' where r: "r = Some (Inr t)"
    and rest: "collect_children rs = Some (Inr ts')" and ts: "ts = t # ts'"
    by (auto split: option.splits sum.splits)
  from Cons.IH [OF rest] r ts show ?case by simp
qed

lemma concat_within:
  assumes "list_all2 (\<lambda>b out. ascending_disjoint out
                         \<and> (\<forall>s \<in> set out. fst b \<le> fst s \<and> fst s < snd s \<and> snd s \<le> snd b))
             bs outs"
    and "ascending_disjoint bs"
  shows "ascending_disjoint (concat outs)
       \<and> (\<forall>s \<in> set (concat outs). \<exists>b \<in> set bs. fst b \<le> fst s \<and> fst s < snd s \<and> snd s \<le> snd b)"
  using assms
proof (induction rule: list_all2_induct)
  case Nil
  show ?case by (simp add: ascending_disjoint_def)
next
  case (Cons b bs out outs)
  from Cons.prems have later: "\<forall>b' \<in> set bs. snd b \<le> fst b'" and asc: "ascending_disjoint bs"
    by (simp_all add: ascending_disjoint_def)
  from Cons.IH [OF asc] have ih1: "ascending_disjoint (concat outs)"
    and ih2: "\<forall>s \<in> set (concat outs). \<exists>b' \<in> set bs. fst b' \<le> fst s \<and> fst s < snd s \<and> snd s \<le> snd b'"
    by simp_all
  from Cons.hyps(1) have out: "ascending_disjoint out"
    and inb: "\<forall>s \<in> set out. fst b \<le> fst s \<and> fst s < snd s \<and> snd s \<le> snd b"
    by simp_all
  have cross: "\<forall>x \<in> set out. \<forall>y \<in> set (concat outs). snd x \<le> fst y"
  proof (intro ballI)
    fix x y assume x: "x \<in> set out" and y: "y \<in> set (concat outs)"
    from ih2 y obtain b' where b': "b' \<in> set bs" "fst b' \<le> fst y" by blast
    from inb x have "snd x \<le> snd b" by simp
    also from later b'(1) have "\<dots> \<le> fst b'" by simp
    finally show "snd x \<le> fst y" using b'(2) by simp
  qed
  have "ascending_disjoint (out @ concat outs)"
    using out ih1 cross by (simp add: ascending_disjoint_def sorted_wrt_append)
  moreover have "\<forall>s \<in> set (out @ concat outs).
                   \<exists>b' \<in> set (b # bs). fst b' \<le> fst s \<and> fst s < snd s \<and> snd s \<le> snd b'"
    using inb ih2 by auto
  ultimately show ?case by simp
qed

lemma child_indices:
  assumes "map p_index pts = [a..<a + length pts]" and "l < r" and "r \<le> length pts"
  shows "map p_index (take (r - l) (drop l pts))
       = [a + l..<a + l + length (take (r - l) (drop l pts))]"
proof -
  have "map p_index (take (r - l) (drop l pts)) = take (r - l) [a + l..<a + length pts]"
    by (simp add: take_map [symmetric] drop_map [symmetric] assms(1))
  also have "\<dots> = [a + l..<a + l + (r - l)]"
    using assms(2,3) by (intro take_upt) simp
  finally show ?thesis using assms(2,3) by simp
qed

lemma children_within:
  assumes idx: "map p_index pts = [a..<a + length pts]"
    and asc: "ascending_disjoint found"
    and proper: "\<forall>s \<in> set found. fst s < snd s \<and> snd s \<le> length pts"
    and got: "collect_children
                (map (\<lambda>points. traverse_cluster_tree depth self points e)
                     (map (\<lambda>(left, right). take (right - left) (drop left pts)) found))
              = Some (Inr ts)"
    and each: "\<And>pts' a' t'.
                 map p_index pts' = [a'..<a' + length pts'] \<Longrightarrow> pts' \<noteq> [] \<Longrightarrow>
                 traverse_cluster_tree depth self pts' e = Some (Inr t') \<Longrightarrow>
                 ascending_disjoint (flatten_list t')
                 \<and> (\<forall>s \<in> set (flatten_list t').
                       a' \<le> fst s \<and> fst s < snd s \<and> snd s \<le> a' + length pts')"
  shows "ascending_disjoint (concat (map flatten_list ts))
       \<and> (\<forall>s \<in> set (concat (map flatten_list ts)).
             a \<le> fst s \<and> fst s < snd s \<and> snd s \<le> a + length pts)"
proof -
  let ?child = "\<lambda>s. take (snd s - fst s) (drop (fst s) pts)"
  let ?shift = "\<lambda>s. (a + fst s, a + snd s)"
  let ?Q = "\<lambda>b out. ascending_disjoint out
                   \<and> (\<forall>s \<in> set out. fst b \<le> fst s \<and> fst s < snd s \<and> snd s \<le> snd b)"
  have "list_all2 (\<lambda>r t. r = Some (Inr t))
          (map (\<lambda>s. traverse_cluster_tree depth self (?child s) e) found) ts"
    using collect_children_Inr [OF got] by (simp add: case_prod_beta comp_def)
  then have "list_all2 (\<lambda>s t. traverse_cluster_tree depth self (?child s) e = Some (Inr t))
               found ts"
    by (simp add: list_all2_map1)
  then have "list_all2 (\<lambda>s t. ?Q (?shift s) (flatten_list t)) found ts"
  proof (rule list.rel_mono_strong)
    fix s t assume s: "s \<in> set found"
      and t: "traverse_cluster_tree depth self (?child s) e = Some (Inr t)"
    from proper s have lr: "fst s < snd s" "snd s \<le> length pts" by simp_all
    then have len: "length (?child s) = snd s - fst s" and ne: "?child s \<noteq> []" by auto
    from each [OF child_indices [OF idx lr] ne t] len lr
    show "?Q (?shift s) (flatten_list t)" by simp
  qed
  then have all: "list_all2 ?Q (map ?shift found) (map flatten_list ts)"
    by (simp add: list_all2_map1 list_all2_map2)
  have "ascending_disjoint (map ?shift found)"
    using asc by (simp add: ascending_disjoint_def sorted_wrt_map)
  from concat_within [OF all this]
  have a1: "ascending_disjoint (concat (map flatten_list ts))"
    and a2: "\<forall>s \<in> set (concat (map flatten_list ts)).
               \<exists>b \<in> set (map ?shift found). fst b \<le> fst s \<and> fst s < snd s \<and> snd s \<le> snd b"
    by simp_all
  have "\<forall>s \<in> set (concat (map flatten_list ts)).
          a \<le> fst s \<and> fst s < snd s \<and> snd s \<le> a + length pts"
  proof
    fix s assume "s \<in> set (concat (map flatten_list ts))"
    with a2 obtain b where b: "b \<in> set (map ?shift found)"
      "fst b \<le> fst s" "fst s < snd s" "snd s \<le> snd b" by blast
    from b(1) obtain s0 where s0: "s0 \<in> set found" "b = ?shift s0" by auto
    with proper have "a \<le> fst b" "snd b \<le> a + length pts" by simp_all
    with b show "a \<le> fst s \<and> fst s < snd s \<and> snd s \<le> a + length pts" by simp
  qed
  with a1 show ?thesis by simp
qed

lemma index_bounds_slice:
  assumes "map p_index pts = [a..<a + length pts]" and "pts \<noteq> []"
  shows "index_bounds pts = Inr (Bounds (a, a + length pts))"
proof -
  have "p_index (hd pts) = hd (map p_index pts)" using assms(2) by (simp add: hd_map)
  then have h: "p_index (hd pts) = a" using assms by simp
  have "p_index (last pts) = last (map p_index pts)" using assms(2) by (simp add: last_map)
  then have l: "p_index (last pts) + 1 = a + length pts" using assms by simp
  show ?thesis using assms(2) h l by (simp add: index_bounds_def)
qed

lemma traverse_cluster_tree_within:
  assumes "2 \<le> min_points self"
  shows "map p_index pts = [a..<a + length pts] \<Longrightarrow>
         pts \<noteq> [] \<Longrightarrow> traverse_cluster_tree depth self pts e = Some (Inr t) \<Longrightarrow>
         ascending_disjoint (flatten_list t)
         \<and> (\<forall>s \<in> set (flatten_list t). a \<le> fst s \<and> fst s < snd s \<and> snd s \<le> a + length pts)"
proof (induction depth arbitrary: pts a e t)
  case 0
  then show ?case by simp
next
  case (Suc depth)
  let ?X = "map p_value pts" and ?k = "min_points self"
  note res = Suc.prems(3)
  have whole: "ascending_disjoint (flatten_list (Bounds (a, a + length pts)))
       \<and> (\<forall>s \<in> set (flatten_list (Bounds (a, a + length pts))).
             a \<le> fst s \<and> fst s < snd s \<and> snd s \<le> a + length pts)"
    using Suc.prems(2) by (simp add: ascending_disjoint_def)
  note ib = index_bounds_slice [OF Suc.prems(1,2)]
  show ?case
  proof (cases "fork_epsilon ?X ?k")
    case (Inl err)
    with res show ?thesis by simp
  next
    case (Inr fork)
    show ?thesis
    proof (cases fork)
      case None
      with Inr res ib have "t = Bounds (a, a + length pts)" by simp
      with whole show ?thesis by simp
    next
      case (Some fe)
      note fork = Inr [unfolded Some]
      show ?thesis
      proof (cases "parent_support self pts e fe")
        case (Inl err)
        with fork res show ?thesis by simp
      next
        case sup: (Inr support)
        show ?thesis
        proof (cases "support \<ge> array_sum (map (\<lambda>p. max 0 (int64 (fe - core_dist p))) pts)")
          case True
          with fork sup res ib have "t = Bounds (a, a + length pts)" by simp
          with whole show ?thesis by simp
        next
          case False
          show ?thesis
          proof (cases "cluster ?X ?k (int64 (fe - 1))")
            case (Inl err)
            with fork sup False res show ?thesis by simp
          next
            case (Inr found)
            let ?rs = "map (\<lambda>points. traverse_cluster_tree depth self points fe)
                         (map (\<lambda>(left, right). take (right - left) (drop left pts)) found)"
            from fork sup False Inr res
            have "map_option (map_sum id Children) (collect_children ?rs) = Some (Inr t)"
              by simp
            then obtain ts where ts: "collect_children ?rs = Some (Inr ts)"
              and t: "t = Children ts"
            proof (cases "collect_children ?rs")
              case None
              with \<open>map_option (map_sum id Children) (collect_children ?rs) = Some (Inr t)\<close>
              show ?thesis by simp
            next
              case (Some x)
              with \<open>map_option (map_sum id Children) (collect_children ?rs) = Some (Inr t)\<close>
              have "map_sum id Children x = Inr t" by simp
              then obtain ts where "x = Inr ts" "t = Children ts" by (cases x) auto
              with Some that show ?thesis by simp
            qed
            from cluster_found(1,2) [OF assms Inr]
            have asc: "ascending_disjoint found"
              and proper: "\<forall>s \<in> set found. fst s < snd s \<and> snd s \<le> length pts"
              by simp_all
            have each: "ascending_disjoint (flatten_list t')
                 \<and> (\<forall>s \<in> set (flatten_list t').
                       a' \<le> fst s \<and> fst s < snd s \<and> snd s \<le> a' + length pts')"
              if "map p_index pts' = [a'..<a' + length pts']"
                "pts' \<noteq> []" "traverse_cluster_tree depth self pts' fe = Some (Inr t')"
              for pts' a' t'
              using that by (rule Suc.IH)
            have "ascending_disjoint (concat (map flatten_list ts))
                \<and> (\<forall>s \<in> set (concat (map flatten_list ts)).
                      a \<le> fst s \<and> fst s < snd s \<and> snd s \<le> a + length pts)"
              using Suc.prems(1) asc proper ts each by (rule children_within)
            then show ?thesis unfolding t flatten_list.simps .
          qed
        qed
      qed
    qed
  qed
qed

section \<open>Fitting: the emitted slices\<close>

lemma core_distances_length:
  assumes "2 \<le> k" and "k \<le> length X" and "core_distances X k = Inr dists"
  shows "length dists = length X"
  using core_distances_coverage [OF assms(1,2)] assms(3) by auto

lemma points_columns:
  assumes "length ds = length X"
  shows "map p_value (map (\<lambda>(i, v, d). \<lparr>p_value = v, p_index = i, core_dist = d\<rparr>)
                          (zip [0..<length X] (zip X ds))) = X"
    and "map p_index (map (\<lambda>(i, v, d). \<lparr>p_value = v, p_index = i, core_dist = d\<rparr>)
                          (zip [0..<length X] (zip X ds))) = [0..<length X]"
proof -
  have "map (\<lambda>x. p_value (case x of (i, v, d) \<Rightarrow> \<lparr>p_value = v, p_index = i, core_dist = d\<rparr>))
          (zip [0..<length X] (zip X ds))
      = map (fst \<circ> snd) (zip [0..<length X] (zip X ds))"
    by (intro map_cong refl) auto
  also have "\<dots> = map fst (map snd (zip [0..<length X] (zip X ds)))" by simp
  also have "\<dots> = X" using assms by simp
  finally show "map p_value (map (\<lambda>(i, v, d). \<lparr>p_value = v, p_index = i, core_dist = d\<rparr>)
                          (zip [0..<length X] (zip X ds))) = X"
    by (simp add: comp_def)
  have "map (\<lambda>x. p_index (case x of (i, v, d) \<Rightarrow> \<lparr>p_value = v, p_index = i, core_dist = d\<rparr>))
          (zip [0..<length X] (zip X ds))
      = map fst (zip [0..<length X] (zip X ds))"
    by (intro map_cong refl) auto
  also have "\<dots> = [0..<length X]" using assms by simp
  finally show "map p_index (map (\<lambda>(i, v, d). \<lparr>p_value = v, p_index = i, core_dist = d\<rparr>)
                          (zip [0..<length X] (zip X ds))) = [0..<length X]"
    by (simp add: comp_def)
qed

lemma run_emits:
  assumes "2 \<le> min_points self" and "length X < depth"
  shows "\<exists>r. run depth self X = Some r
           \<and> (\<forall>self' out. r = Inr (self', out) \<longrightarrow>
                 ascending_disjoint out \<and> (\<forall>s \<in> set out. fst s < snd s \<and> snd s \<le> length X))"
proof (cases "sorted_ascending X
              \<and> method_name self \<in> {''aggressive'', ''conservative''}
              \<and> \<not> length X < min_points self")
  case False
  then show ?thesis
    by (auto simp: run_def ascending_disjoint_def)
next
  case True
  then have srt: "sorted_ascending X"
    and meth: "method_name self \<in> {''aggressive'', ''conservative''}"
    and n: "\<not> length X < min_points self"
    by simp_all
  show ?thesis
  proof (cases "core_distances X (min_points self)")
    case (Inl err)
    with srt meth n show ?thesis by (simp add: run_def)
  next
    case (Inr dists)
    note dists = Inr
    have ld: "length dists = length X"
      using assms(1) n dists by (intro core_distances_length [of "min_points self"]) simp_all
    let ?emax = "if max_eps self = None \<or> max_eps self = Some 0
                 then (case fork_epsilon X (min_points self) of
                         Inl e \<Rightarrow> Inl e
                       | Inr None \<Rightarrow> Inl TypeError
                       | Inr (Some f) \<Rightarrow> Inr (int64 (f - 1)))
                 else Inr (the (max_eps self))"
    show ?thesis
    proof (cases ?emax)
      case (Inl err)
      with srt meth n dists show ?thesis by (simp add: run_def)
    next
      case (Inr e_max)
      note emax = Inr
      let ?self1 = "self\<lparr>max_eps := Some e_max\<rparr>"
      let ?ds = "if min_eps self = None \<or> min_eps self = Some 0 then dists
                 else map (\<lambda>d. max (the (min_eps self)) d) dists"
      let ?points = "map (\<lambda>(i, v, d). \<lparr>p_value = v, p_index = i, core_dist = d\<rparr>)
                         (zip [0..<length X] (zip X ?ds))"
      have lds: "length ?ds = length X" using ld by simp
      note cols = points_columns [OF lds]
      have lp: "length ?points = length X" using lds by simp
      show ?thesis
      proof (cases "cluster X (min_points self) e_max")
        case (Inl err)
        with srt meth n dists emax show ?thesis by (simp add: run_def Let_def)
      next
        case (Inr init)
        let ?rs = "map (\<lambda>points. traverse_cluster_tree depth ?self1 points e_max)
                       (map (\<lambda>(left, right). take (right - left) (drop left ?points)) init)"
        have unfold: "run depth self X
            = map_option (map_sum id (\<lambda>clusters. (?self1, flatten_list (Children clusters))))
                (collect_children ?rs)"
          using srt meth n dists emax Inr by (simp add: run_def Let_def)
        have k1: "2 \<le> min_points ?self1" using assms(1) by simp
        have idx: "map p_index ?points = [0..<0 + length ?points]" using cols(2) lp by simp
        have "\<forall>r \<in> set ?rs. r \<noteq> None"
        proof
          fix r assume "r \<in> set ?rs"
          then obtain s where r: "r = traverse_cluster_tree depth ?self1
                                        (take (snd s - fst s) (drop (fst s) ?points)) e_max"
            by (auto simp: case_prod_beta)
          have "length (take (snd s - fst s) (drop (fst s) ?points)) < depth"
            using lp assms(2) by simp
          from traverse_cluster_tree_total [OF k1 this] r
          show "r \<noteq> None" by simp
        qed
        then have "collect_children ?rs \<noteq> None" by (rule collect_children_total)
        then obtain c where c: "collect_children ?rs = Some c" by blast
        show ?thesis
        proof (cases c)
          case (Inl err)
          with unfold c show ?thesis by simp
        next
          case (Inr ts)
          from cluster_found(1,2) [OF assms(1) \<open>cluster X (min_points self) e_max = Inr init\<close>]
          have asc: "ascending_disjoint init"
            and proper: "\<forall>s \<in> set init. fst s < snd s \<and> snd s \<le> length ?points"
            using lp by simp_all
          have got: "collect_children ?rs = Some (Inr ts)" using c Inr by simp
          have each: "ascending_disjoint (flatten_list t')
                 \<and> (\<forall>s \<in> set (flatten_list t').
                       a' \<le> fst s \<and> fst s < snd s \<and> snd s \<le> a' + length pts')"
            if "map p_index pts' = [a'..<a' + length pts']"
              "pts' \<noteq> []" "traverse_cluster_tree depth ?self1 pts' e_max = Some (Inr t')"
            for pts' a' t'
            using that by (rule traverse_cluster_tree_within [OF k1])
          have "ascending_disjoint (concat (map flatten_list ts))
              \<and> (\<forall>s \<in> set (concat (map flatten_list ts)).
                    0 \<le> fst s \<and> fst s < snd s \<and> snd s \<le> 0 + length ?points)"
            using idx asc proper got each by (rule children_within)
          then have "ascending_disjoint (flatten_list (Children ts))
              \<and> (\<forall>s \<in> set (flatten_list (Children ts)). fst s < snd s \<and> snd s \<le> length X)"
            using lp by simp
          with unfold got show ?thesis by simp
        qed
      qed
    qed
  qed
qed

lemma UDBSCANx_fit_emits:
  assumes "2 \<le> k" and "UDBSCANx_fit (UDBSCANx_init k eps) X = Inr flat"
  shows "ascending_disjoint (slices flat)
       \<and> (\<forall>s \<in> set (slices flat). fst s < snd s \<and> snd s \<le> length X)"
proof -
  from assms(2) obtain found where found: "cluster X k eps = Inr found"
    and flat: "slices flat = found"
    by (cases "cluster X k eps")
       (auto simp: UDBSCANx_fit_def UDBSCANx_init_def split: if_splits)
  from cluster_found(1,2) [OF assms(1) found] flat show ?thesis by simp
qed

lemma UDBSCANx_fit_returns:
  assumes "sorted X" and "no_overflow X" and "2 \<le> k"
  shows "\<exists>flat. UDBSCANx_fit (UDBSCANx_init k eps) X = Inr flat"
proof -
  have srt: "sorted_ascending X"
    using assms(1) by (simp only: sorted_ascending_iff [OF assms(2)])
  from cluster_windows [OF srt assms(3), of eps] obtain found
    where "cluster X k eps = Inr found" by blast
  with srt show ?thesis
    by (simp add: UDBSCANx_fit_def UDBSCANx_init_def)
qed

lemma UDBSCANxH_fit_emits:
  assumes "2 \<le> k" and "UDBSCANxH_init k emax emin m = Inr h" and "length X < depth"
  shows "\<exists>r. UDBSCANxH_fit depth h X = Some r
           \<and> (\<forall>h'. r = Inr h' \<longrightarrow> ascending_disjoint (slices h')
                      \<and> (\<forall>s \<in> set (slices h'). fst s < snd s \<and> snd s \<le> length X))"
proof -
  from assms(2) have "min_points h = k"
    by (auto simp: UDBSCANxH_init_def split: if_splits)
  with assms(1) have "2 \<le> min_points h" by simp
  from run_emits [OF this assms(3)] obtain r where r: "run depth h X = Some r"
    and out: "\<forall>self' out. r = Inr (self', out) \<longrightarrow>
                 ascending_disjoint out \<and> (\<forall>s \<in> set out. fst s < snd s \<and> snd s \<le> length X)"
    by blast
  show ?thesis
  proof (cases r)
    case (Inl err)
    with r show ?thesis by (simp add: UDBSCANxH_fit_def)
  next
    case (Inr p)
    obtain self' found where p: "p = (self', found)" by (cases p)
    with out Inr have "ascending_disjoint found"
      "\<forall>s \<in> set found. fst s < snd s \<and> snd s \<le> length X" by simp_all
    with r Inr p show ?thesis by (simp add: UDBSCANxH_fit_def)
  qed
qed

text \<open>
  Claim C3. For every array of 64-bit integers sorted ascending and valid parameters (at
  least two points per cluster, thresholds of the 64-bit range, a method the constructor
  accepts), the slices that
  \<open>UDBSCANx.fit\<close> stores and the slices that \<open>UDBSCANxH.fit\<close> stores are ascending and
  pairwise disjoint: of any two emitted slices the earlier one ends where or before the
  later one begins, and none is empty. This holds of whatever slices either \<open>fit\<close>
  stores. The flat fit returns whenever no difference of two elements of the array leaves
  the 64-bit range; the hierarchical traversal always comes back, its recursion being no
  deeper than the array is long.
\<close>

theorem emitted_slices_ascending_disjoint:
  assumes "int64_array X" and "sorted X" and "2 \<le> k"
    and "is_int64 eps" and "int64_threshold emax" and "int64_threshold emin"
    and "UDBSCANxH_init k emax emin m = Inr h" and "length X < depth"
  shows "(\<forall>flat. UDBSCANx_fit (UDBSCANx_init k eps) X = Inr flat \<longrightarrow>
            ascending_disjoint (slices flat)
            \<and> (\<forall>s \<in> set (slices flat). fst s < snd s \<and> snd s \<le> length X))
       \<and> (no_overflow X \<longrightarrow> (\<exists>flat. UDBSCANx_fit (UDBSCANx_init k eps) X = Inr flat))
       \<and> (\<exists>r. UDBSCANxH_fit depth h X = Some r
            \<and> (\<forall>h'. r = Inr h' \<longrightarrow> ascending_disjoint (slices h')
                       \<and> (\<forall>s \<in> set (slices h'). fst s < snd s \<and> snd s \<le> length X)))"
proof (intro conjI allI impI)
  fix flat assume "UDBSCANx_fit (UDBSCANx_init k eps) X = Inr flat"
  with assms(3) have "ascending_disjoint (slices flat)
       \<and> (\<forall>s \<in> set (slices flat). fst s < snd s \<and> snd s \<le> length X)"
    by (rule UDBSCANx_fit_emits)
  then show "ascending_disjoint (slices flat)"
    and "\<forall>s \<in> set (slices flat). fst s < snd s \<and> snd s \<le> length X"
    by simp_all
next
  assume "no_overflow X"
  with assms(2) show "\<exists>flat. UDBSCANx_fit (UDBSCANx_init k eps) X = Inr flat"
    using assms(3) by (rule UDBSCANx_fit_returns)
next
  show "\<exists>r. UDBSCANxH_fit depth h X = Some r
            \<and> (\<forall>h'. r = Inr h' \<longrightarrow> ascending_disjoint (slices h')
                       \<and> (\<forall>s \<in> set (slices h'). fst s < snd s \<and> snd s \<le> length X))"
    by (rule UDBSCANxH_fit_emits [OF assms(3,7,8)])
qed

theorem emitted_slices_ascending_disjoint_witness:
  "int64_array [0, 1, 2, 3, 20, 21, 22, 23, 40, 41, 42, 43]
   \<and> sorted [0, 1, 2, 3, 20, 21, 22, 23, 40, 41, 42, 43 :: int] \<and> (2::nat) \<le> 3
   \<and> is_int64 5 \<and> int64_threshold (Some 20) \<and> int64_threshold None
   \<and> UDBSCANxH_init 3 (Some 20) None ''conservative''
       = Inr \<lparr>min_points = 3, slices = [], input_array = [], max_eps = Some 20, min_eps = None,
              method_name = ''conservative''\<rparr>
   \<and> length [0, 1, 2, 3, 20, 21, 22, 23, 40, 41, 42, 43 :: int] < 13
   \<and> no_overflow [0, 1, 2, 3, 20, 21, 22, 23, 40, 41, 42, 43]
   \<and> slices (projr (UDBSCANx_fit (UDBSCANx_init 3 5) [0, 1, 2, 3, 20, 21, 22, 23, 40, 41, 42, 43]))
       = [(0, 4), (4, 8), (8, 12)]
   \<and> ascending_disjoint [(0, 4), (4, 8), (8, 12)]
   \<and> (\<exists>h'. UDBSCANxH_fit 13
              \<lparr>min_points = 3, slices = [], input_array = [], max_eps = Some 20, min_eps = None,
               method_name = ''conservative''\<rparr>
              [0, 1, 2, 3, 20, 21, 22, 23, 40, 41, 42, 43] = Some (Inr h')
            \<and> slices h' = [(0, 4), (4, 8), (8, 12)] \<and> ascending_disjoint (slices h'))"
proof -
  let ?X = "[0, 1, 2, 3, 20, 21, 22, 23, 40, 41, 42, 43 :: int]"
  let ?h = "\<lparr>min_points = 3, slices = [], input_array = [], max_eps = Some 20, min_eps = None,
             method_name = ''conservative''\<rparr>"
  have i: "int64_array ?X" by (simp add: int64_array_def is_int64_def two63_def)
  have s: "sorted ?X" by simp
  have k: "(2::nat) \<le> 3" by simp
  have e: "is_int64 5" "int64_threshold (Some 20)" "int64_threshold None"
    by (simp_all add: int64_threshold_def is_int64_def two63_def)
  have h: "UDBSCANxH_init 3 (Some 20) None ''conservative'' = Inr ?h"
    by (simp add: UDBSCANxH_init_def)
  have d: "length ?X < 13" by simp
  have n: "no_overflow ?X" by (simp add: no_overflow_def is_int64_def two63_def)
  have flat: "slices (projr (UDBSCANx_fit (UDBSCANx_init 3 5) ?X)) = [(0, 4), (4, 8), (8, 12)]"
    by code_simp
  have hier: "map_option (map_sum id slices) (UDBSCANxH_fit 13 ?h ?X)
            = Some (Inr [(0, 4), (4, 8), (8, 12)])"
    by code_simp
  from emitted_slices_ascending_disjoint [OF i s k e h d] n
  obtain flat' r where f1: "UDBSCANx_fit (UDBSCANx_init 3 5) ?X = Inr flat'"
    and f2: "ascending_disjoint (slices flat')"
    and r: "UDBSCANxH_fit 13 ?h ?X = Some r"
    and r2: "\<forall>h'. r = Inr h' \<longrightarrow> ascending_disjoint (slices h')"
    by blast
  from hier r obtain h' where h': "r = Inr h'" "slices h' = [(0, 4), (4, 8), (8, 12)]"
    by (cases r) auto
  from f1 f2 flat have "ascending_disjoint [(0, 4), (4, 8), (8, 12)]" by simp
  with i s k e h d n flat r h' r2 show ?thesis by simp
qed

section \<open>Fitting: sorted input that is not accepted\<close>

lemma unsorted_fit_fails:
  assumes "no_overflow X" and "\<not> sorted X"
  shows "UDBSCANx_fit flat X = Inl AssertionError"
    and "UDBSCANxH_fit depth h X = Some (Inl AssertionError)"
  using assms(2)
  by (simp_all add: UDBSCANx_fit_def UDBSCANxH_fit_def run_def sorted_ascending_iff [OF assms(1)])

text \<open>
  Claim C4 says that \<open>fit\<close> returns without error on every array sorted ascending. With
  \<open>max_eps\<close> left at its default \<open>None\<close>, \<open>UDBSCANxH._run\<close> takes the fork epsilon of the
  whole array minus one; on an array that does not fork \<open>_fork_epsilon\<close> answers \<open>None\<close>
  and the subtraction raises TypeError. The array 0, 1, 2 with three points per cluster is
  sorted, and \<open>fit\<close> raises on it, at whatever recursion depth. (The other half of the
  claim holds of every array whose differences stay in the 64-bit range: one that is not
  sorted fails the assertion of either class.)
\<close>

theorem hierarchical_fit_raises_on_sorted_array:
  "UDBSCANxH_init 3 None None ''conservative''
     = Inr \<lparr>min_points = 3, slices = [], input_array = [], max_eps = None, min_eps = None,
            method_name = ''conservative''\<rparr>
   \<and> sorted [0, 1, 2 :: int]
   \<and> UDBSCANxH_fit depth
        \<lparr>min_points = 3, slices = [], input_array = [], max_eps = None, min_eps = None,
         method_name = ''conservative''\<rparr>
        [0, 1, 2] = Some (Inl TypeError)"
proof -
  have a: "sorted_ascending [0, 1, 2]" by code_simp
  have b: "core_distances [0, 1, 2] 3 = Inr [2, 2, 2]" by code_simp
  have c: "fork_epsilon [0, 1, 2] 3 = Inr None" by (simp add: fork_epsilon_def)
  show ?thesis
    using a b c by (simp add: UDBSCANxH_init_def UDBSCANxH_fit_def run_def)
qed

section \<open>Examples at the edge of the 64-bit range\<close>

text \<open>
  On the sorted array of the least and the greatest 64-bit value the one step is
  \<open>2^64 - 1\<close>, which the array stores as \<open>-1\<close>: the core distances are \<open>-1\<close>, the
  sortedness check of the clusterers sees a negative step and the flat fit fails its
  assertion. With each of the two values repeated the spans for \<open>k = 2\<close> are 0, \<open>-1\<close>, 0
  and no peak survives.
\<close>

lemma core_distances_wraps:
  "core_distances [- 9223372036854775808, 9223372036854775807] 2 = Inr [- 1, - 1]"
  by code_simp

lemma fork_epsilon_wraps:
  "fork_epsilon [- 9223372036854775808, - 9223372036854775808,
                 9223372036854775807, 9223372036854775807] 2 = Inr None"
  by code_simp

lemma UDBSCANx_fit_wraps:
  "sorted [- 9223372036854775808, 9223372036854775807 :: int]
   \<and> UDBSCANx_fit (UDBSCANx_init 2 5) [- 9223372036854775808, 9223372036854775807]
       = Inl AssertionError"
proof -
  have "\<not> sorted_ascending [- 9223372036854775808, 9223372036854775807]" by code_simp
  then show ?thesis by (simp add: UDBSCANx_fit_def)
qed

section \<open>The comparison of reads against bins\<close>

lemma sequence_sum_uniform:
  assumes "\<And>x e. x \<in> set xs \<Longrightarrow> f x = Inl e \<Longrightarrow> e = e0"
  shows "sequence_sum (map f xs) =
           (if list_all (\<lambda>x. \<not> isl (f x)) xs then Inr (map (\<lambda>x. projr (f x)) xs) else Inl e0)"
  using assms
proof (induction xs)
  case Nil
  show ?case by simp
next
  case (Cons x xs)
  have ih: "sequence_sum (map f xs) =
           (if list_all (\<lambda>x. \<not> isl (f x)) xs then Inr (map (\<lambda>x. projr (f x)) xs) else Inl e0)"
    by (rule Cons.IH) (use Cons.prems in auto)
  show ?case
  proof (cases "f x")
    case (Inl e)
    with Cons.prems [of x e] show ?thesis by simp
  next
    case (Inr v)
    with ih show ?thesis by simp
  qed
qed

lemma tips_keys: "fst ` set (tips reads) = fst ` set reads"
  by (force simp: tips_def)

lemma dict_get_error: "dict_get d k = Inl e \<Longrightarrow> e = KeyError"
  by (simp add: dict_get_def split: option.splits)

lemma dict_get_present: "(\<not> isl (dict_get d k)) = (k \<in> fst ` set d)"
proof -
  have "(\<not> isl (dict_get d k)) = (map_of d k \<noteq> None)"
    by (cases "map_of d k") (simp_all add: dict_get_def)
  then show ?thesis by (simp add: map_of_eq_None_iff)
qed

lemma dict_get_tips: "k \<in> fst ` set reads \<Longrightarrow> projr (dict_get (tips reads) k) = tips_of reads k"
  using dict_get_present [of "tips reads" k]
  by (cases "map_of (tips reads) k") (auto simp: dict_get_def tips_of_def tips_keys)

lemma group3_of_with_sample [simp]: "group3_of (with_sample key sample) = key"
  by (cases key) (simp add: group3_of_def with_sample_def)

lemma source_of_with_sample [simp]: "source_of (with_sample key sample) = sample"
  by (cases key) (simp add: source_of_def with_sample_def)

lemma sort_remdups_set: "set xs = set ys \<Longrightarrow> sort (remdups xs) = sort (remdups ys)"
  by (metis sorted_list_of_set_sort_remdups)

lemma covered_sources:
  assumes "group_covered reads key"
  shows "sources_of reads key = sort (remdups (map (\<lambda>item. source_of (fst item)) reads))"
  unfolding sources_of_def
proof (rule sort_remdups_set, intro equalityI subsetI)
  fix s
  assume "s \<in> set (map (\<lambda>item. source_of (fst item))
                       (filter (\<lambda>item. group3_of (fst item) = key) reads))"
  then show "s \<in> set (map (\<lambda>item. source_of (fst item)) reads)" by auto
next
  fix s
  assume "s \<in> set (map (\<lambda>item. source_of (fst item)) reads)"
  then obtain item where item: "item \<in> set reads" "s = source_of (fst item)" by auto
  with assms have "with_sample key s \<in> fst ` set reads"
    by (simp add: group_covered_def list_all_iff)
  then obtain item' where item': "item' \<in> set reads" "fst item' = with_sample key s" by auto
  then have "group3_of (fst item') = key" "source_of (fst item') = s" by simp_all
  with item'(1) show "s \<in> set (map (\<lambda>item. source_of (fst item))
                                   (filter (\<lambda>item. group3_of (fst item) = key) reads))"
    by force
qed

lemma compare_group_result:
  fixes reads :: "(group4, read_locus list) dict"
  defines "samples \<equiv> sort (remdups (map (\<lambda>item. source_of (fst item)) reads))"
  shows "compare_group samples (tips reads) (key, bins) =
           (if group_covered reads key
            then Inr (key, map (\<lambda>(start, stop).
                                  (start, stop, sources_of reads key,
                                   map (\<lambda>sample. count_tips (tips_of reads (with_sample key sample))
                                                             start stop)
                                       (sources_of reads key)))
                               bins)
            else Inl KeyError)"
proof -
  let ?get = "\<lambda>sample. dict_get (tips reads) (with_sample key sample)"
  have present: "list_all (\<lambda>sample. \<not> isl (?get sample)) samples = group_covered reads key"
    by (auto simp: dict_get_present tips_keys samples_def group_covered_def list_all_iff)
  have err: "\<And>x e. x \<in> set samples \<Longrightarrow> ?get x = Inl e \<Longrightarrow> e = KeyError"
    by (rule dict_get_error)
  have seq: "sequence_sum (map ?get samples) =
           (if group_covered reads key then Inr (map (\<lambda>sample. projr (?get sample)) samples)
            else Inl KeyError)"
    using sequence_sum_uniform [of samples ?get KeyError, OF err] by (simp only: present)
  show ?thesis
  proof (cases "group_covered reads key")
    case False
    with seq show ?thesis by (simp add: compare_group_def)
  next
    case True
    then have src: "sources_of reads key = samples"
      unfolding samples_def by (rule covered_sources)
    have "\<forall>sample \<in> set samples. with_sample key sample \<in> fst ` set reads"
      using True by (auto simp: samples_def group_covered_def list_all_iff)
    then have tp: "map (\<lambda>sample. projr (?get sample)) samples
                 = map (\<lambda>sample. tips_of reads (with_sample key sample)) samples"
      by (intro map_cong refl) (simp add: dict_get_tips)
    show ?thesis
      using True seq by (simp add: compare_group_def src tp comp_def)
  qed
qed

lemma covers_groups:
  "covers reads bins_dict = list_all (\<lambda>item. group_covered reads (fst item)) bins_dict"
  by (simp add: covers_def group_covered_def list_all_iff)

text \<open>
  Claim C6, as the code has it. For every ComparativeBins \<open>B\<close> and ReadLoci \<open>R\<close> in which
  every source of \<open>R\<close> has a read group under every bin group of \<open>B\<close>, \<open>B.compare(R)\<close>
  returns a Comparison in which, for every bin group and every bin, the samples are the
  ascending de-duplicated sources of the read groups of that (reference, strand,
  category), and \<open>counts[i]\<close> is the number of tips of sample \<open>samples[i]\<close> in the closed
  range of the bin. When a source lacks the read group of some bin group, the call raises
  KeyError.
\<close>

theorem compare_counts_tips_per_sample:
  "compare bins_dict reads =
     (if covers reads bins_dict then Inr (comparison_of bins_dict reads) else Inl KeyError)"
proof -
  let ?samples = "sort (remdups (map (\<lambda>item. source_of (fst item)) reads))"
  let ?f = "compare_group ?samples (tips reads)"
  have f: "?f item =
           (if group_covered reads (fst item)
            then Inr (fst item,
                      map (\<lambda>(start, stop).
                             (start, stop, sources_of reads (fst item),
                              map (\<lambda>sample. count_tips (tips_of reads (with_sample (fst item) sample))
                                                        start stop)
                                  (sources_of reads (fst item))))
                          (snd item))
            else Inl KeyError)" for item
    using compare_group_result [of reads "fst item" "snd item"] by simp
  have err: "\<And>item e. item \<in> set bins_dict \<Longrightarrow> ?f item = Inl e \<Longrightarrow> e = KeyError"
    by (simp add: f split: if_splits)
  have ok: "list_all (\<lambda>item. \<not> isl (?f item)) bins_dict = covers reads bins_dict"
    by (simp add: f covers_groups list_all_iff)
  have seq: "compare bins_dict reads =
           (if covers reads bins_dict then Inr (map (\<lambda>item. projr (?f item)) bins_dict)
            else Inl KeyError)"
    using sequence_sum_uniform [of bins_dict ?f KeyError, OF err] ok
    by (simp add: compare_def Let_def)
  show ?thesis
  proof (cases "covers reads bins_dict")
    case False
    with seq show ?thesis by simp
  next
    case True
    then have "\<forall>item \<in> set bins_dict. group_covered reads (fst item)"
      by (simp add: covers_groups list_all_iff)
    then have "map (\<lambda>item. projr (?f item)) bins_dict = comparison_of bins_dict reads"
      unfolding comparison_of_def
      by (intro map_cong refl) (simp add: f case_prod_beta)
    with True seq show ?thesis by simp
  qed
qed

theorem compare_counts_tips_per_sample_witness:
  "covers reads_two_samples bins_gypsy
   \<and> compare bins_gypsy reads_two_samples
       = Inr [((''chr1'', ''+'', ''gypsy''), [(100, 200, [''sampleA'', ''sampleB''], [2, 2])])]"
proof -
  have c: "covers reads_two_samples bins_gypsy" by code_simp
  have v: "comparison_of bins_gypsy reads_two_samples
         = [((''chr1'', ''+'', ''gypsy''), [(100, 200, [''sampleA'', ''sampleB''], [2, 2])])]"
    by code_simp
  from compare_counts_tips_per_sample [of bins_gypsy reads_two_samples] c v
  show ?thesis by simp
qed

text \<open>
  The claim as stated covers every \<open>R\<close>. With reads of sample A on chr1 and of sample B
  on chr2 only, the bin group on chr1 should get the samples [sampleA] and one count per
  bin; the code takes the samples from all the read groups and raises KeyError.
\<close>

theorem compare_missing_group_counterexample:
  "compare bins_gypsy reads_other_contig \<noteq> Inr (comparison_of bins_gypsy reads_other_contig)
   \<and> compare bins_gypsy reads_other_contig = Inl KeyError"
proof -
  have "compare bins_gypsy reads_other_contig = Inl KeyError" by code_simp
  then show ?thesis by simp
qed

section \<open>What a fingerprint does to the reads it is taken from\<close>

text \<open>
  Claim C7 says that \<open>tips\<close> and \<open>fingerprint\<close> leave every (start, stop, name) record of
  the reads as it was. \<open>tips\<close> only hands out views. \<open>fingerprint\<close> sorts each view in
  place: in a forward group holding the reads (1, 9, a) and (2, 5, b) the stops are
  swapped under the starts and names, whatever the clustering model does afterwards.
\<close>

theorem fingerprint_sorts_stored_tips:
  "fst (fingerprint model reads_unsorted_tips 2 10 0 True)
     = [((''chr1'', ''+'', ''gypsy'', ''sampleA''), [(1, 5, ''a''), (2, 9, ''b'')])]
   \<and> fst (fingerprint model reads_unsorted_tips 2 10 0 True) \<noteq> reads_unsorted_tips
   \<and> tips reads_unsorted_tips = [((''chr1'', ''+'', ''gypsy'', ''sampleA''), [9, 5])]"
proof -
  have "sort [9, 5 :: int] = [5, 9]" by simp
  then have "fst (fingerprint model reads_unsorted_tips 2 10 0 True)
     = [((''chr1'', ''+'', ''gypsy'', ''sampleA''), [(1, 5, ''a''), (2, 9, ''b'')])]"
    by (cases "model True 2 10 0 [5, 9]")
       (simp_all add: fingerprint_def reads_unsorted_tips_def tips_column_def read_column_def
          write_column_def)
  moreover have "tips reads_unsorted_tips = [((''chr1'', ''+'', ''gypsy'', ''sampleA''), [9, 5])]"
    by (simp add: tips_def reads_unsorted_tips_def tips_column_def read_column_def)
  ultimately show ?thesis by (simp add: reads_unsorted_tips_def)
qed

end
